theory Spec2Isabelle
  imports Main "HOL-Library.Word"
begin

unbundle bit_operations_syntax

section \<open>The BLISS private key: a shallow embedding of bliss\_private\_key.c\<close>

text \<open>
  The C integer types of the source are modelled by machine words: \<open>int8_t\<close> is
  \<open>8 word\<close>, \<open>int16_t\<close> and \<open>uint16_t\<close> are \<open>16 word\<close>, \<open>int32_t\<close> and
  \<open>uint32_t\<close> are \<open>32 word\<close>.  A signed variable is read with \<open>sint\<close>, an unsigned one
  with \<open>uint\<close> or \<open>unat\<close>.  Where C computes in \<open>int\<close> after the integer promotions and
  then stores into a narrower variable, the model computes on \<open>int\<close> and converts back
  with \<open>word_of_int\<close>, which truncates as the compilers strongSwan supports do.
  A \<open>chunk_t\<close> is a list of bytes; an array is a list, and the arrays handed to a
  function have the \<open>n\<close> elements the function is told.  Array lengths, loop counters and
  the counts read from a parameter set are natural numbers.
\<close>

type_synonym int8_t = "8 word"
type_synonym int16_t = "16 word"
type_synonym uint16_t = "16 word"
type_synonym int32_t = "32 word"
type_synonym uint32_t = "32 word"
type_synonym chunk_t = "8 word list"

subsection \<open>Data\<close>

text \<open>
  The parameter sets are a constant table in another file of the plugin; a set is a
  parameter of the model.  Field \<open>f\<close> of \<open>bliss_param_set_t\<close> is \<open>set_f\<close> here, field
  \<open>f\<close> of its \<open>fft_params\<close> is \<open>fft_f\<close>, and field \<open>f\<close> of the private key is \<open>key_f\<close>
  (only the fields this file reads are kept).
\<close>

record bliss_fft_params_t =
  fft_q :: uint16_t
  fft_n :: nat

record bliss_param_set_t =
  set_strength :: nat
  set_q :: uint16_t
  set_q2_inv :: uint16_t
  set_n :: nat
  set_n_bits :: nat
  set_fft_params :: bliss_fft_params_t
  set_non_zero1 :: nat
  set_non_zero2 :: nat
  set_kappa :: uint16_t
  set_nks_max :: uint32_t
  set_p :: uint16_t
  set_M :: uint32_t

record private_bliss_private_key_t =
  key_set :: bliss_param_set_t
  key_s1 :: "int8_t list"
  key_s2 :: "int8_t list"
  key_a :: "uint32_t list"

datatype hash_algorithm_t = HASH_SHA1 | HASH_SHA256 | HASH_SHA512

definition HASH_SIZE_SHA1 :: nat where "HASH_SIZE_SHA1 = 20"
definition HASH_SIZE_SHA256 :: nat where "HASH_SIZE_SHA256 = 32"

datatype rng_quality_t = RNG_STRONG | RNG_TRUE

text \<open>
  \<open>signature_scheme_t\<close> and \<open>encryption_scheme_t\<close> are enumerations of the library.
  Of the signature schemes only \<open>SIGN_BLISS_WITH_SHA512\<close> is named in this file; every
  other enumerator is \<open>SIGN_OTHER\<close> with its integer code.
\<close>

datatype signature_scheme_t = SIGN_BLISS_WITH_SHA512 | SIGN_OTHER int

type_synonym encryption_scheme_t = int

datatype builder_part_t = BUILD_KEY_SIZE nat | BUILD_END | BUILD_OTHER

definition SECRET_KEY_TRIALS_MAX :: nat where "SECRET_KEY_TRIALS_MAX = 50"

subsection \<open>The collaborators\<close>

text \<open>
  The random number generator, the MGF1 bit spender, the Gaussian sampler, the hasher,
  the FFT, the parameter-set registry, the helpers of \<open>bliss_utils\<close> and
  \<open>bliss_signature\<close> and the C library's \<open>qsort\<close> live in other files.  They are
  parameters of the model: a record of functions.  A stateful object is a state of type \<open>'r\<close> (generator), \<open>'b\<close> (bit spender)
  or \<open>'s\<close> (sampler) that each call takes and returns; a call that returns \<open>FALSE\<close> or
  \<open>NULL\<close> is \<open>None\<close>.  A hasher is its \<open>get_hash\<close> function.
\<close>

type_synonym hasher_t = "chunk_t \<Rightarrow> chunk_t option"

record ('r, 'b, 's) bliss_lib =
  lib_create_rng :: "rng_quality_t \<Rightarrow> 'r option"
  rng_get_bytes :: "'r \<Rightarrow> nat \<Rightarrow> (chunk_t \<times> 'r) option"
  lib_create_hasher :: "hash_algorithm_t \<Rightarrow> hasher_t option"
  mgf1_bitspender_create :: "hash_algorithm_t \<Rightarrow> chunk_t \<Rightarrow> 'b option"
  bitspender_get_bits :: "'b \<Rightarrow> nat \<Rightarrow> (uint32_t \<times> 'b) option"
  bliss_param_set_get_by_id :: "nat \<Rightarrow> bliss_param_set_t option"
  fft_transform :: "bliss_fft_params_t \<Rightarrow> uint32_t list \<Rightarrow> bool \<Rightarrow> uint32_t list"
  bliss_sampler_create :: "hash_algorithm_t \<Rightarrow> chunk_t \<Rightarrow> bliss_param_set_t \<Rightarrow> 's option"
  sampler_gaussian :: "'s \<Rightarrow> (int32_t \<times> 's) option"
  sampler_bernoulli_exp :: "'s \<Rightarrow> uint32_t \<Rightarrow> (bool \<times> 's) option"
  sampler_bernoulli_cosh :: "'s \<Rightarrow> int32_t \<Rightarrow> (bool \<times> 's) option"
  sampler_sign :: "'s \<Rightarrow> (bool \<times> 's) option"
  bliss_utils_round_and_drop :: "bliss_param_set_t \<Rightarrow> int32_t list \<Rightarrow> int16_t list"
  bliss_utils_generate_c ::
    "hasher_t \<Rightarrow> chunk_t \<Rightarrow> int16_t list \<Rightarrow> nat \<Rightarrow> uint16_t \<Rightarrow> uint16_t list option"
  bliss_utils_scalar_product :: "int32_t list \<Rightarrow> int32_t list \<Rightarrow> nat \<Rightarrow> int32_t"
  bliss_utils_check_norms :: "bliss_param_set_t \<Rightarrow> int32_t list \<Rightarrow> int16_t list \<Rightarrow> bool"
  bliss_signature_get_encoding ::
    "bliss_param_set_t \<Rightarrow> int32_t list \<Rightarrow> int16_t list \<Rightarrow> uint16_t list \<Rightarrow> chunk_t"
  libc_qsort :: "(int16_t \<Rightarrow> int16_t \<Rightarrow> int) \<Rightarrow> int16_t list \<Rightarrow> int16_t list"

text \<open>
  Why a function of this file did not deliver.  The first six are the failures the C code
  reports by returning \<open>FALSE\<close> or \<open>NULL\<close>; the last four are executions the C standard
  leaves undefined or that trap, which the model makes visible instead of hiding them.
\<close>

datatype failure =
    BITSPENDER_UNAVAILABLE
  | BITS_EXHAUSTED
  | RNG_FAILED
  | TRIALS_EXHAUSTED
  | BUILDER_PART_UNKNOWN
  | PARAM_SET_UNSUPPORTED
  | FFT_PARAMS_MISMATCH
  | NOT_INVERTIBLE
  | INDEX_OUT_OF_BOUNDS
  | INVERT_UNDEFINED
  | NULL_DEREFERENCE

subsection \<open>multiply\_by\_c\<close>

text \<open>
  \<open>product[i]\<close> accumulates \<open>kappa\<close> coefficients of \<open>s\<close>, subtracted where the index
  wraps.  The indices \<open>c_indices[j]\<close> are below \<open>n\<close> by the contract of
  \<open>bliss_utils_generate_c\<close>, which keeps \<open>i - index + n\<close> inside the array.
\<close>

definition multiply_by_c ::
  "int8_t list \<Rightarrow> nat \<Rightarrow> uint16_t list \<Rightarrow> uint16_t \<Rightarrow> int32_t list" where
  "multiply_by_c s n c_indices kappa =
     map (\<lambda>i. fold (\<lambda>j product.
                  let index = uint (c_indices ! j)
                  in if int i - index < 0
                     then word_of_int (sint product - sint (s ! nat (int i - index + int n)))
                     else word_of_int (sint product + sint (s ! nat (int i - index))))
                [0..<unat kappa] (0 :: int32_t))
       [0..<n]"

subsection \<open>The z2d derivation of the signing loop\<close>

text \<open>
  One round of the last \<open>for\<close> loop of \<open>sign_bliss_with_sha512\<close>: \<open>value\<close> is an
  \<open>int16_t\<close>, \<open>p\<close> and \<open>p2 = p / 2\<close> are \<open>uint16_t\<close>; the comparisons are made on \<open>int\<close>.
\<close>

definition z2d_value :: "uint16_t \<Rightarrow> int16_t \<Rightarrow> int16_t \<Rightarrow> int16_t" where
  "z2d_value p ud_i uz2d_i =
     (let p2 = p div 2;
          v = (word_of_int (sint ud_i - sint uz2d_i) :: int16_t)
      in if sint v \<le> - uint p2 then word_of_int (sint v + uint p)
         else if sint v > uint p2 then word_of_int (sint v - uint p)
         else v)"

subsection \<open>sign\_bliss\_with\_sha512\<close>

text \<open>
  What a call of \<open>sign\<close> leaves behind: it returns with a truth value and the contents
  of the caller's \<open>signature\<close> chunk, or it dereferences a null pointer.
\<close>

datatype sign_outcome = Returned bool chunk_t | Crashed

text \<open>
  The Gaussian sampling loop: \<open>y1[i]\<close>, \<open>y2[i]\<close> and \<open>ay[i]\<close> for \<open>i < n\<close>, left at the
  first sample the sampler refuses.  The statistics the loop collects in \<open>double\<close>
  variables only feed the debug log and are left out.
\<close>

fun gaussian_loop ::
  "('r, 'b, 's) bliss_lib \<Rightarrow> uint16_t \<Rightarrow> nat \<Rightarrow> 's \<Rightarrow>
   int32_t list \<times> int32_t list \<times> uint32_t list \<Rightarrow>
   ((int32_t list \<times> int32_t list \<times> uint32_t list) \<times> 's) option" where
  "gaussian_loop lib q 0 sampler ys = Some (ys, sampler)"
| "gaussian_loop lib q (Suc k) sampler (y1, y2, ay) =
     (case sampler_gaussian lib sampler of
        None \<Rightarrow> None
      | Some (y1i, sampler1) \<Rightarrow>
          (case sampler_gaussian lib sampler1 of
             None \<Rightarrow> None
           | Some (y2i, sampler2) \<Rightarrow>
               gaussian_loop lib q k sampler2
                 (y1 @ [y1i], y2 @ [y2i],
                  ay @ [if sint y1i < 0 then word_of_int (uint q + sint y1i)
                        else word_of_int (sint y1i)])))"

text \<open>C's \<open>%\<close> on \<open>int\<close> truncates towards zero.\<close>

definition c_rem :: "int \<Rightarrow> int \<Rightarrow> int" where
  "c_rem a b = a - b * (sgn a * sgn b * (\<bar>a\<bar> div \<bar>b\<bar>))"

text \<open>
  How one round of the \<open>while (true)\<close> loop ends once it has its seed: at \<open>goto end\<close>
  (with the sampler pointer null or not), at a \<open>continue\<close>, at the \<open>break\<close> with the
  encoded signature, or in a division by zero.
\<close>

datatype 's round_exit =
    Goto_end bool
  | Continue 's
  | Break chunk_t
  | Division_by_zero

text \<open>
  One round, from \<open>bliss_sampler_create\<close> on.  \<open>y1\<close> and \<open>z1\<close>, \<open>y2\<close> and \<open>z2\<close>, \<open>ud\<close>
  and \<open>z2d\<close> share their arrays in the source; every array is written in full before it
  is read in a round, so the arrays are values local to the round.  A failed
  \<open>bliss_sampler_create\<close> sets the sampler pointer to null.  The modulus \<open>q\<close> and
  \<open>q2 = 2 q\<close> (a \<open>uint16_t\<close>) are the divisors of the two \<open>for\<close> loops after the Gaussian
  sampling: with \<open>n > 0\<close> and one of them zero the round divides by zero there.
\<close>

definition sign_round ::
  "('r, 'b, 's) bliss_lib \<Rightarrow> private_bliss_private_key_t \<Rightarrow> hasher_t \<Rightarrow> chunk_t \<Rightarrow>
   hash_algorithm_t \<Rightarrow> uint32_t list \<Rightarrow> chunk_t \<Rightarrow> 's round_exit" where
  "sign_round lib this hasher data_hash alg A seed =
     (let pset = key_set this; n = set_n pset; q = set_q pset; p = set_p pset;
          q2 = 2 * q
      in
      case bliss_sampler_create lib alg seed pset of
        None \<Rightarrow> Goto_end True
      | Some sampler0 \<Rightarrow>
      (case gaussian_loop lib q n sampler0 ([], [], []) of
        None \<Rightarrow> Goto_end False
      | Some ((y1, y2, ay), sampler1) \<Rightarrow>
      if 0 < n \<and> (q = 0 \<or> q2 = 0) then Division_by_zero
      else
      (let ay = fft_transform lib (set_fft_params pset) ay False;
           ay = map (\<lambda>i. (A ! i * ay ! i) mod ucast q) [0..<n];
           ay = fft_transform lib (set_fft_params pset) ay True;
           u = map (\<lambda>i.
                 let ui = (word_of_int (2 * uint (set_q2_inv pset) * sint (ay ! i)
                                        + sint (y2 ! i)) :: int32_t)
                 in (word_of_int (c_rem (if sint ui < 0 then uint q2 + sint ui else sint ui)
                                    (uint q2)) :: int32_t)) [0..<n];
           ud = bliss_utils_round_and_drop lib pset u
       in
      case bliss_utils_generate_c lib hasher data_hash ud n (set_kappa pset) of
        None \<Rightarrow> Goto_end False
      | Some c_indices \<Rightarrow>
      (let s1c = multiply_by_c (key_s1 this) n c_indices (set_kappa pset);
           s2c = multiply_by_c (key_s2 this) n c_indices (set_kappa pset);
           norm = bliss_utils_scalar_product lib s1c s1c n
                  + bliss_utils_scalar_product lib s2c s2c n
       in
      case sampler_bernoulli_exp lib sampler1 (set_M pset - norm) of
        None \<Rightarrow> Goto_end False
      | Some (accepted, sampler2) \<Rightarrow>
      if \<not> accepted then Continue sampler2
      else
      (case sampler_sign lib sampler2 of
        None \<Rightarrow> Goto_end False
      | Some (positive, sampler3) \<Rightarrow>
      (let z1 = map (\<lambda>i. if positive then y1 ! i + s1c ! i else y1 ! i - s1c ! i) [0..<n];
           z2 = map (\<lambda>i. if positive then y2 ! i + s2c ! i else y2 ! i - s2c ! i) [0..<n];
           scalar = bliss_utils_scalar_product lib z1 s1c n
                    + bliss_utils_scalar_product lib z2 s2c n
       in
      case sampler_bernoulli_cosh lib sampler3 scalar of
        None \<Rightarrow> Goto_end False
      | Some (accepted, sampler4) \<Rightarrow>
      if \<not> accepted then Continue sampler4
      else
      (let u = map (\<lambda>i.
                 let ui = u ! i - z2 ! i
                 in if sint ui < 0 then word_of_int (sint ui + uint q2)
                    else if sint ui \<ge> uint q2 then word_of_int (sint ui - uint q2)
                    else ui) [0..<n];
           uz2d = bliss_utils_round_and_drop lib pset u;
           z2d = map (\<lambda>i. z2d_value p (ud ! i) (uz2d ! i)) [0..<n]
       in
      if \<not> bliss_utils_check_norms lib pset z1 z2d then Continue sampler4
      else Break (bliss_signature_get_encoding lib pset z1 z2d c_indices))))))))"

text \<open>
  The \<open>while (true)\<close> loop has no bound in the source.  The model counts the rounds it
  may still run: with none left the result is \<open>None\<close>, the loop has not ended yet.
  A round first draws its seed from the generator.  \<open>sampler\<close> is the sampler of the
  previous round, if any: \<open>DESTROY_IF\<close> frees it but leaves the pointer.  The private key
  \<open>this\<close> is passed along and handed back as the loop leaves it.  After \<open>end:\<close> the
  cleanup calls \<open>sampler->destroy(sampler)\<close>, on a null pointer if the loop was left
  before a sampler existed.
\<close>

fun sign_loop ::
  "('r, 'b, 's) bliss_lib \<Rightarrow> private_bliss_private_key_t \<Rightarrow> hasher_t \<Rightarrow> chunk_t \<Rightarrow>
   hash_algorithm_t \<Rightarrow> nat \<Rightarrow> uint32_t list \<Rightarrow> nat \<Rightarrow> 'r \<Rightarrow> 's option \<Rightarrow>
   (sign_outcome \<times> private_bliss_private_key_t) option" where
  "sign_loop lib this hasher data_hash alg seed_len A 0 rng sampler = None"
| "sign_loop lib this hasher data_hash alg seed_len A (Suc rounds) rng sampler =
     (case rng_get_bytes lib rng seed_len of
        None \<Rightarrow> Some (if sampler = None then Crashed else Returned False [], this)
      | Some (seed, rng1) \<Rightarrow>
          (case sign_round lib this hasher data_hash alg A seed of
             Goto_end sampler_is_null \<Rightarrow>
               Some (if sampler_is_null then Crashed else Returned False [], this)
           | Continue sampler1 \<Rightarrow>
               sign_loop lib this hasher data_hash alg seed_len A rounds rng1 (Some sampler1)
           | Break encoding \<Rightarrow> Some (Returned True encoding, this)
           | Division_by_zero \<Rightarrow> Some (Crashed, this)))"

text \<open>
  \<open>sign_bliss_with_sha512\<close>: \<open>*signature = chunk_empty\<close> first, then the hasher, the data
  hash, the generator, \<open>A = FFT(a)\<close> and the loop.
\<close>

definition sign_bliss_with_sha512 ::
  "('r, 'b, 's) bliss_lib \<Rightarrow> nat \<Rightarrow> private_bliss_private_key_t \<Rightarrow> chunk_t \<Rightarrow> chunk_t \<Rightarrow>
   (sign_outcome \<times> private_bliss_private_key_t) option" where
  "sign_bliss_with_sha512 lib rounds this data signature =
     (case lib_create_hasher lib HASH_SHA512 of
        None \<Rightarrow> Some (Returned False [], this)
      | Some hasher \<Rightarrow>
      (case hasher data of
        None \<Rightarrow> Some (Returned False [], this)
      | Some data_hash \<Rightarrow>
      (let alg = (if set_strength (key_set this) > 160 then HASH_SHA256 else HASH_SHA1);
           seed_len = (if set_strength (key_set this) > 160 then HASH_SIZE_SHA256
                       else HASH_SIZE_SHA1)
       in
      case lib_create_rng lib RNG_STRONG of
        None \<Rightarrow> Some (Returned False [], this)
      | Some rng \<Rightarrow>
      (let A = fft_transform lib (set_fft_params (key_set this)) (key_a this) False
       in sign_loop lib this hasher data_hash alg seed_len A rounds rng None))))"

subsection \<open>sign and decrypt\<close>

text \<open>
  The output parameters \<open>signature\<close> and \<open>plain\<close> are threaded through: a function takes
  what the caller's chunk holds and returns what it holds afterwards.
\<close>

definition sign ::
  "('r, 'b, 's) bliss_lib \<Rightarrow> nat \<Rightarrow> private_bliss_private_key_t \<Rightarrow> signature_scheme_t \<Rightarrow>
   chunk_t \<Rightarrow> chunk_t \<Rightarrow> (sign_outcome \<times> private_bliss_private_key_t) option" where
  "sign lib rounds this scheme data signature =
     (case scheme of
        SIGN_BLISS_WITH_SHA512 \<Rightarrow> sign_bliss_with_sha512 lib rounds this data signature
      | SIGN_OTHER code \<Rightarrow> Some (Returned False signature, this))"

definition decrypt ::
  "private_bliss_private_key_t \<Rightarrow> encryption_scheme_t \<Rightarrow> chunk_t \<Rightarrow> chunk_t \<Rightarrow> bool \<times> chunk_t" where
  "decrypt this scheme crypto plain = (False, plain)"

subsection \<open>wrapped\_product, wrap, compare and nks\_norm\<close>

text \<open>
  \<open>wrapped_product\<close> accumulates in an \<open>int16_t\<close>; it is called with \<open>0 \<le> shift < n\<close>.
\<close>

definition wrapped_product :: "int8_t list \<Rightarrow> int8_t list \<Rightarrow> nat \<Rightarrow> nat \<Rightarrow> int16_t" where
  "wrapped_product x y n shift =
     (let product = fold (\<lambda>i product. word_of_int (sint product + sint (x ! i) * sint (y ! (i + shift))))
                      [0..<n - shift] (0 :: int16_t)
      in fold (\<lambda>i product. word_of_int (sint product - sint (x ! i) * sint (y ! (i + shift - n))))
           [n - shift..<n] product)"

definition wrap :: "int16_t list \<Rightarrow> nat \<Rightarrow> nat \<Rightarrow> int16_t list \<Rightarrow> int16_t list" where
  "wrap x n shift x_wrapped =
     (let x_wrapped = fold (\<lambda>i xw. xw[i + shift := x ! i]) [0..<n - shift] x_wrapped
      in fold (\<lambda>i xw. xw[i + shift - n := word_of_int (- sint (x ! i))]) [n - shift..<n] x_wrapped)"

definition compare :: "int16_t \<Rightarrow> int16_t \<Rightarrow> int" where
  "compare a b =
     (let temp = (word_of_int (sint a - sint b) :: int16_t)
      in if sint temp > 0 then 1 else if sint temp < 0 then - 1 else 0)"

text \<open>
  \<open>nks_norm\<close> sorts with the C library's \<open>qsort\<close>, which is not part of this file:
  \<open>nks_norm_by sorter\<close> is \<open>nks_norm\<close> with \<open>sorter cmp xs\<close> standing for what
  \<open>qsort(xs, n, sizeof(int16_t), cmp)\<close> leaves in the array.  Nothing is assumed of
  \<open>sorter\<close>: the difference in \<open>compare\<close> can overflow, \<open>compare\<close> is then no order, and
  what \<open>qsort\<close> leaves in the array depends on the library.

  The sums of the top \<open>kappa\<close> entries read \<open>t_wrapped[n - j]\<close> and
  \<open>max_kappa[n - i]\<close> for \<open>1 \<le> j, i \<le> kappa\<close>: with \<open>kappa > n\<close> they read below the
  arrays, and the model returns \<open>None\<close>.  \<open>max_kappa[i]\<close> is an \<open>int16_t\<close>, \<open>nks\<close> a
  \<open>uint32_t\<close>.
\<close>

definition nks_norm_by ::
  "((int16_t \<Rightarrow> int16_t \<Rightarrow> int) \<Rightarrow> int16_t list \<Rightarrow> int16_t list) \<Rightarrow>
   int8_t list \<Rightarrow> int8_t list \<Rightarrow> nat \<Rightarrow> uint16_t \<Rightarrow> uint32_t option" where
  "nks_norm_by sorter s1 s2 n kappa =
     (if n < unat kappa then None
      else
        let t = map (\<lambda>i. (word_of_int (sint (wrapped_product s1 s1 n i)
                                         + sint (wrapped_product s2 s2 n i)) :: int16_t)) [0..<n];
            max_kappa = map (\<lambda>i.
                let t_wrapped = sorter compare (wrap t n i (replicate n 0))
                in fold (\<lambda>j m. word_of_int (sint m + sint (t_wrapped ! (n - j))))
                     [1..<Suc (unat kappa)] (0 :: int16_t)) [0..<n];
            max_kappa = sorter compare max_kappa
        in Some (fold (\<lambda>i nks. nks + word_of_int (sint (max_kappa ! (n - i))))
                   [1..<Suc (unat kappa)] (0 :: uint32_t)))"

text \<open>
  A reference \<open>qsort\<close>: insertion sort with the comparison function it is given.  Where
  that function is a total preorder on the values to sort, every sorting algorithm leaves
  the same sequence of values; \<open>nks_norm\<close> is \<open>nks_norm_by\<close> with this reference sort.
  Key generation does not use it: it sorts with the library's \<open>qsort\<close>.
\<close>

fun qsort_insert :: "('a \<Rightarrow> 'a \<Rightarrow> int) \<Rightarrow> 'a \<Rightarrow> 'a list \<Rightarrow> 'a list" where
  "qsort_insert cmp x [] = [x]"
| "qsort_insert cmp x (y # ys) =
     (if cmp x y \<le> 0 then x # y # ys else y # qsort_insert cmp x ys)"

definition qsort :: "('a \<Rightarrow> 'a \<Rightarrow> int) \<Rightarrow> 'a list \<Rightarrow> 'a list" where
  "qsort cmp xs = foldr (qsort_insert cmp) xs []"

definition nks_norm :: "int8_t list \<Rightarrow> int8_t list \<Rightarrow> nat \<Rightarrow> uint16_t \<Rightarrow> uint32_t option" where
  "nks_norm s1 s2 n kappa = nks_norm_by qsort s1 s2 n kappa"

subsection \<open>invert: the inverse modulo q by exponentiation\<close>

text \<open>
  The \<open>while\<close> loop of \<open>invert\<close> looks for the highest set bit of \<open>q2 = q - 2\<close>, counting
  \<open>i_max\<close> down from 15.  When \<open>q2\<close> is zero the C loop runs past bit 0 and shifts by a
  negative amount, which is undefined behaviour: the model returns \<open>None\<close> there.
\<close>

fun i_max_search :: "uint16_t \<Rightarrow> nat \<Rightarrow> nat option" where
  "i_max_search q2 i_max =
     (if (uint q2) AND (push_bit i_max 1) = 0
      then (case i_max of 0 \<Rightarrow> None | Suc j \<Rightarrow> i_max_search q2 j)
      else Some i_max)"

text \<open>The \<open>for\<close> loop: \<open>i\<close> runs from 1 to \<open>i_max\<close>, squaring \<open>x2\<close> and multiplying it
  into \<open>x1\<close> where bit \<open>i\<close> of \<open>q2\<close> is set.  All products are \<open>uint32_t\<close> products.\<close>

function invert_loop ::
  "uint16_t \<Rightarrow> uint16_t \<Rightarrow> nat \<Rightarrow> nat \<Rightarrow> uint32_t \<Rightarrow> uint32_t \<Rightarrow> uint32_t" where
  "invert_loop q q2 i_max i x1 x2 =
     (if i \<le> i_max then
        let x2' = (x2 * x2) mod ucast q;
            x1' = (if (uint q2) AND (push_bit i 1) \<noteq> 0 then (x1 * x2') mod ucast q else x1)
        in invert_loop q q2 i_max (i + 1) x1' x2'
      else x1)"
  by pat_completeness auto
termination
  by (relation "measure (\<lambda>(q, q2, i_max, i, x1, x2). Suc i_max - i)") auto

text \<open>
  \<open>invert x q\<close>.  With \<open>q = 0\<close> the first \<open>% q\<close> of the loop divides by zero (then
  \<open>q2 = 65534\<close>, \<open>i_max = 15\<close> and the loop body runs): the model returns \<open>None\<close>.
\<close>

definition invert :: "uint32_t \<Rightarrow> uint16_t \<Rightarrow> uint32_t option" where
  "invert x q =
     (let q2 = q - 2;
          x1 = (if (uint q2) AND 1 \<noteq> 0 then x else 1);
          x2 = x
      in case i_max_search q2 15 of
           None \<Rightarrow> None
         | Some i_max \<Rightarrow> if q = 0 then None else Some (invert_loop q q2 i_max 1 x1 x2))"

subsection \<open>create\_vector\_from\_seed\<close>

text \<open>
  The two \<open>while (non_zero)\<close> loops differ only in the magnitude they place (1, then 2).
  A loop draws an index of \<open>n_bits\<close> bits, draws again if that entry is taken, and
  otherwise draws a sign bit and writes the entry.  Nothing bounds the number of draws,
  so the loop is a partial function: \<open>None\<close> is a loop that never ends.  An index
  outside the vector is an out-of-bounds access in C.
\<close>

partial_function (option) place_nonzero ::
  "('r, 'b, 's) bliss_lib \<Rightarrow> nat \<Rightarrow> int8_t \<Rightarrow> nat \<Rightarrow> int8_t list \<Rightarrow> 'b \<Rightarrow>
   (failure + int8_t list \<times> 'b) option" where
  "place_nonzero lib n_bits magnitude non_zero vector bitspender =
     (if non_zero = 0 then Some (Inr (vector, bitspender))
      else
        case bitspender_get_bits lib bitspender n_bits of
          None \<Rightarrow> Some (Inl BITS_EXHAUSTED)
        | Some (index, bitspender1) \<Rightarrow>
            if length vector \<le> unat index then Some (Inl INDEX_OUT_OF_BOUNDS)
            else if vector ! unat index \<noteq> 0
            then place_nonzero lib n_bits magnitude non_zero vector bitspender1
            else
              case bitspender_get_bits lib bitspender1 1 of
                None \<Rightarrow> Some (Inl BITS_EXHAUSTED)
              | Some (sign_bit, bitspender2) \<Rightarrow>
                  place_nonzero lib n_bits magnitude (non_zero - 1)
                    (vector[unat index := (if sign_bit \<noteq> 0 then magnitude else - magnitude)])
                    bitspender2)"

declare place_nonzero.simps [code]

definition create_vector_from_seed ::
  "('r, 'b, 's) bliss_lib \<Rightarrow> private_bliss_private_key_t \<Rightarrow> hash_algorithm_t \<Rightarrow> chunk_t \<Rightarrow>
   (failure + int8_t list) option" where
  "create_vector_from_seed lib this alg seed =
     (case mgf1_bitspender_create lib alg seed of
        None \<Rightarrow> Some (Inl BITSPENDER_UNAVAILABLE)
      | Some bitspender \<Rightarrow>
          (case place_nonzero lib (set_n_bits (key_set this)) 1 (set_non_zero1 (key_set this))
                  (replicate (set_n (key_set this)) 0) bitspender of
             None \<Rightarrow> None
           | Some (Inl e) \<Rightarrow> Some (Inl e)
           | Some (Inr (vector, bitspender1)) \<Rightarrow>
               (case place_nonzero lib (set_n_bits (key_set this)) 2
                       (set_non_zero2 (key_set this)) vector bitspender1 of
                  None \<Rightarrow> None
                | Some (Inl e) \<Rightarrow> Some (Inl e)
                | Some (Inr (vector, bitspender2)) \<Rightarrow> Some (Inr vector))))"

subsection \<open>create\_secret\<close>

text \<open>
  The loop runs while \<open>*trials < SECRET_KEY_TRIALS_MAX\<close>.  The result carries the
  generator and the trial counter as the call leaves them, since both outlive it.
  \<open>l2_norm\<close> is only logged.  \<open>g[0] += 1\<close> is written for \<open>n > 0\<close>.
\<close>

function create_secret ::
  "('r, 'b, 's) bliss_lib \<Rightarrow> private_bliss_private_key_t \<Rightarrow> 'r \<Rightarrow> nat \<Rightarrow>
   ((failure + int8_t list \<times> int8_t list) \<times> 'r \<times> nat) option" where
  "create_secret lib this rng trials =
     (let n = set_n (key_set this);
          alg = (if set_strength (key_set this) > 160 then HASH_SHA256 else HASH_SHA1);
          seed_len = (if set_strength (key_set this) > 160 then HASH_SIZE_SHA256
                      else HASH_SIZE_SHA1)
      in
      if trials < SECRET_KEY_TRIALS_MAX then
        (case rng_get_bytes lib rng seed_len of
           None \<Rightarrow> Some (Inl RNG_FAILED, rng, trials + 1)
         | Some (seed, rng1) \<Rightarrow>
         (case create_vector_from_seed lib this alg seed of
           None \<Rightarrow> None
         | Some (Inl e) \<Rightarrow> Some (Inl e, rng1, trials + 1)
         | Some (Inr f) \<Rightarrow>
         (case rng_get_bytes lib rng1 seed_len of
           None \<Rightarrow> Some (Inl RNG_FAILED, rng1, trials + 1)
         | Some (seed, rng2) \<Rightarrow>
         (case create_vector_from_seed lib this alg seed of
           None \<Rightarrow> None
         | Some (Inl e) \<Rightarrow> Some (Inl e, rng2, trials + 1)
         | Some (Inr g) \<Rightarrow>
         (let g = map (\<lambda>i. g ! i * 2) [0..<n];
              g = g[0 := g ! 0 + 1]
          in
          case nks_norm_by (libc_qsort lib) f g n (set_kappa (key_set this)) of
            None \<Rightarrow> Some (Inl INDEX_OUT_OF_BOUNDS, rng2, trials + 1)
          | Some nks \<Rightarrow>
              if nks < set_nks_max (key_set this)
              then Some (Inr (f, g), rng2, trials + 1)
              else create_secret lib this rng2 (trials + 1))))))
      else Some (Inl TRIALS_EXHAUSTED, rng, trials))"
  by pat_completeness auto
termination
  by (relation "measure (\<lambda>(lib, this, rng, trials). SECRET_KEY_TRIALS_MAX - trials)") auto

declare create_secret.simps [simp del]

subsection \<open>bliss\_private\_key\_gen\<close>

text \<open>The argument list: \<open>BUILD_KEY_SIZE\<close> sets the key size, \<open>BUILD_END\<close> ends the list,
  any other part makes the constructor return \<open>NULL\<close>.  A list without \<open>BUILD_END\<close> is
  read past its end.\<close>

fun parse_args :: "builder_part_t list \<Rightarrow> nat \<Rightarrow> failure + nat" where
  "parse_args [] key_size = Inl INDEX_OUT_OF_BOUNDS"
| "parse_args (BUILD_KEY_SIZE k # args) key_size = parse_args args k"
| "parse_args (BUILD_END # args) key_size = Inr key_size"
| "parse_args (BUILD_OTHER # args) key_size = Inl BUILDER_PART_UNKNOWN"

text \<open>The conversion of the signed secret arrays to unsigned arrays before the FFT.\<close>

definition lift_s1 :: "uint16_t \<Rightarrow> int8_t \<Rightarrow> uint32_t" where
  "lift_s1 q x = (if sint x < 0 then word_of_int (sint x + uint q) else word_of_int (sint x))"

definition lift_s2 :: "uint16_t \<Rightarrow> int8_t \<Rightarrow> uint32_t" where
  "lift_s2 q x = (if sint x > 0 then word_of_int (uint q - sint x) else word_of_int (- sint x))"

text \<open>
  The \<open>for\<close> loop over \<open>i\<close> that tests \<open>S1[i]\<close> and fills \<open>A[i]\<close>; it is left at the first
  zero of \<open>S1\<close>.
\<close>

function public_key_loop ::
  "uint16_t \<Rightarrow> uint32_t list \<Rightarrow> uint32_t list \<Rightarrow> nat \<Rightarrow> nat \<Rightarrow> uint32_t list \<Rightarrow>
   failure + uint32_t list" where
  "public_key_loop q S1 S2 n i A =
     (if i < n then
        if S1 ! i = 0 then Inl NOT_INVERTIBLE
        else (case invert (S1 ! i) q of
                None \<Rightarrow> Inl INVERT_UNDEFINED
              | Some x \<Rightarrow> public_key_loop q S1 S2 n (i + 1) (A[i := (S2 ! i * x) mod ucast q]))
      else Inr A)"
  by pat_completeness auto
termination
  by (relation "measure (\<lambda>(q, S1, S2, n, i, A). n - i)") auto

declare public_key_loop.simps [simp del]


text \<open>
  The \<open>do ... while (!success && trials < SECRET_KEY_TRIALS_MAX)\<close> loop.  Every pass
  that gets a secret from \<open>create_secret\<close> has advanced the trial counter, which is what
  ends the loop; the lemma is needed for the termination proof.
\<close>

lemma create_secret_trials:
  "create_secret lib this rng trials = Some (r, rng', trials') \<Longrightarrow>
   trials \<le> trials' \<and> (trials' \<le> SECRET_KEY_TRIALS_MAX \<or> trials' = trials)
     \<and> (\<forall>x. r = Inr x \<longrightarrow> trials < trials')"
proof (induction "SECRET_KEY_TRIALS_MAX - trials" arbitrary: trials rng)
  case 0
  then show ?case
    by (auto simp: create_secret.simps [of lib this rng trials] Let_def)
next
  case (Suc k)
  then have lt: "trials < SECRET_KEY_TRIALS_MAX" by simp
  have IH: "\<And>rng2. create_secret lib this rng2 (Suc trials) = Some (r, rng', trials') \<Longrightarrow>
      Suc trials \<le> trials' \<and> (trials' \<le> SECRET_KEY_TRIALS_MAX \<or> trials' = Suc trials)
        \<and> (\<forall>x. r = Inr x \<longrightarrow> Suc trials < trials')"
    using Suc.hyps(1) [of "Suc trials"] Suc.hyps(2) by simp
  from Suc.prems lt show ?case
    apply (subst (asm) create_secret.simps)
    apply (auto simp: Let_def split: option.splits sum.splits prod.splits if_splits dest!: IH)
    done
qed

function gen_loop ::
  "('r, 'b, 's) bliss_lib \<Rightarrow> private_bliss_private_key_t \<Rightarrow> 'r \<Rightarrow> nat \<Rightarrow>
   ((failure + private_bliss_private_key_t) \<times> nat) option" where
  "gen_loop lib this rng trials =
     (case create_secret lib this rng trials of
        None \<Rightarrow> None
      | Some (Inl e, rng1, trials1) \<Rightarrow> Some (Inl e, trials1)
      | Some (Inr (s1, s2), rng1, trials1) \<Rightarrow>
          (let n = set_n (key_set this); q = set_q (key_set this);
               S1 = map (\<lambda>i. lift_s1 q (s1 ! i)) [0..<n];
               S2 = map (\<lambda>i. lift_s2 q (s2 ! i)) [0..<n];
               S1 = fft_transform lib (set_fft_params (key_set this)) S1 False;
               S2 = fft_transform lib (set_fft_params (key_set this)) S2 False
           in
           case public_key_loop q S1 S2 n 0 (replicate n 0) of
             Inr A \<Rightarrow>
               Some (Inr (this\<lparr>key_s1 := s1, key_s2 := s2,
                               key_a := fft_transform lib (set_fft_params (key_set this)) A True\<rparr>),
                     trials1)
           | Inl e \<Rightarrow>
               if e = NOT_INVERTIBLE then
                 (if trials1 < SECRET_KEY_TRIALS_MAX then gen_loop lib this rng1 trials1
                  else Some (Inl TRIALS_EXHAUSTED, trials1))
               else Some (Inl e, trials1)))"
  by pat_completeness auto
termination
  by (relation "measure (\<lambda>(lib, this, rng, trials). SECRET_KEY_TRIALS_MAX - trials)")
     (auto dest: create_secret_trials)

declare gen_loop.simps [simp del]

text \<open>
  \<open>bliss_private_key_gen\<close>.  The result of \<open>create_rng\<close> is not tested: a null generator
  is dereferenced in the first trial.  Besides the key (or the reason there is none) the
  model returns the number of trials, which the source logs.
\<close>

definition bliss_private_key_gen ::
  "('r, 'b, 's) bliss_lib \<Rightarrow> builder_part_t list \<Rightarrow>
   ((failure + private_bliss_private_key_t) \<times> nat) option" where
  "bliss_private_key_gen lib args =
     (case parse_args args 1 of
        Inl e \<Rightarrow> Some (Inl e, 0)
      | Inr key_size \<Rightarrow>
      (case bliss_param_set_get_by_id lib key_size of
        None \<Rightarrow> Some (Inl PARAM_SET_UNSUPPORTED, 0)
      | Some pset \<Rightarrow>
          if fft_n (set_fft_params pset) \<noteq> set_n pset \<or> fft_q (set_fft_params pset) \<noteq> set_q pset
          then Some (Inl FFT_PARAMS_MISMATCH, 0)
          else
            (case lib_create_rng lib RNG_TRUE of
               None \<Rightarrow> Some (Inl NULL_DEREFERENCE, 1)
             | Some rng \<Rightarrow>
                 gen_loop lib \<lparr>key_set = pset, key_s1 = [], key_s2 = [],
                                key_a = replicate (set_n pset) 0\<rparr> rng 0)))"

section \<open>Definitions for the statements\<close>

subsection \<open>Primality\<close>

text \<open>A prime, by trial division; the statement about \<open>invert\<close> needs it.\<close>

definition is_prime :: "nat \<Rightarrow> bool" where
  "is_prime p \<longleftrightarrow> 1 < p \<and> (\<forall>m \<in> {2..<p}. \<not> m dvd p)"

subsection \<open>The norm of the specification\<close>

text \<open>
  The \<open>N\<^sub>\<kappa>(S)\<close> norm as the specification words it, over the integers: the inner
  product, the negative-wrapped rotation \<open>t'[i + s] = t[i]\<close> for \<open>i < n - s\<close> and
  \<open>t'[i + s - n] = - t[i]\<close> for \<open>i \<ge> n - s\<close>, the sum of the top \<open>\<kappa>\<close> entries of a
  vector sorted in ascending order, the vector \<open>t[i] = <s1, rho^i s1> + <s2, rho^i s2>\<close>,
  the vector \<open>max\<kappa>\<close> and the norm.
\<close>

definition inner_product :: "int list \<Rightarrow> int list \<Rightarrow> int" where
  "inner_product x y = sum_list (map2 (*) x y)"

definition neg_rotate :: "nat \<Rightarrow> int list \<Rightarrow> int list" where
  "neg_rotate s t = map (\<lambda>k. if k < s then - (t ! (k + length t - s)) else t ! (k - s)) [0..<length t]"

definition top_sum :: "nat \<Rightarrow> int list \<Rightarrow> int" where
  "top_sum k xs = sum_list (take k (rev (sort xs)))"

definition nks_spec_t :: "int list \<Rightarrow> int list \<Rightarrow> int list" where
  "nks_spec_t s1 s2 =
     map (\<lambda>i. inner_product s1 (neg_rotate i s1) + inner_product s2 (neg_rotate i s2)) [0..<length s1]"

definition nks_spec_max_kappa :: "int list \<Rightarrow> int list \<Rightarrow> nat \<Rightarrow> int list" where
  "nks_spec_max_kappa s1 s2 k =
     (let t = nks_spec_t s1 s2 in map (\<lambda>i. top_sum k (neg_rotate i t)) [0..<length s1])"

definition nks_spec :: "int list \<Rightarrow> int list \<Rightarrow> nat \<Rightarrow> int" where
  "nks_spec s1 s2 k = top_sum k (nks_spec_max_kappa s1 s2 k)"

text \<open>
  The vectors \<open>t\<close> and \<open>max\<kappa>\<close> of the specification fit the 16-bit variables of the code
  with room for the difference of any two entries.
\<close>

definition nks_in_range :: "int list \<Rightarrow> int list \<Rightarrow> nat \<Rightarrow> bool" where
  "nks_in_range s1 s2 k \<longleftrightarrow>
     list_all (\<lambda>x. \<bar>x\<bar> \<le> 16383) (nks_spec_t s1 s2) \<and>
     list_all (\<lambda>m. \<bar>m\<bar> \<le> 16383) (nks_spec_max_kappa s1 s2 k)"

subsection \<open>What a placement loop of create\_vector\_from\_seed achieves\<close>

text \<open>
  \<open>placed mag k v v'\<close>: \<open>v'\<close> is \<open>v\<close> with \<open>k\<close> more entries of magnitude \<open>mag\<close>, written
  over zeros; the entries of every other kind are as many as before.
\<close>

definition placed :: "int8_t \<Rightarrow> nat \<Rightarrow> int8_t list \<Rightarrow> int8_t list \<Rightarrow> bool" where
  "placed mag k v v' \<longleftrightarrow>
     length v' = length v \<and>
     length (filter (\<lambda>x. x = mag \<or> x = - mag) v')
       = length (filter (\<lambda>x. x = mag \<or> x = - mag) v) + k \<and>
     (\<forall>P. \<not> P 0 \<and> \<not> P mag \<and> \<not> P (- mag) \<longrightarrow> length (filter P v') = length (filter P v)) \<and>
     set v' \<subseteq> set v \<union> {mag, - mag}"

subsection \<open>The public-key relation\<close>

text \<open>
  For a key: \<open>S1\<close>, the FFT of the lift of \<open>s1\<close> modulo \<open>q\<close>; \<open>S2\<close>, the FFT of the lift of
  the negated \<open>s2\<close>; and the polynomial \<open>A[i] = (S2[i] * invert(S1[i], q)) mod q\<close>, in
  \<open>uint32_t\<close> arithmetic.
\<close>

definition key_S1 :: "('r, 'b, 's) bliss_lib \<Rightarrow> private_bliss_private_key_t \<Rightarrow> uint32_t list" where
  "key_S1 lib key =
     fft_transform lib (set_fft_params (key_set key))
       (map (\<lambda>i. lift_s1 (set_q (key_set key)) (key_s1 key ! i)) [0..<set_n (key_set key)]) False"

definition key_S2 :: "('r, 'b, 's) bliss_lib \<Rightarrow> private_bliss_private_key_t \<Rightarrow> uint32_t list" where
  "key_S2 lib key =
     fft_transform lib (set_fft_params (key_set key))
       (map (\<lambda>i. lift_s2 (set_q (key_set key)) (key_s2 key ! i)) [0..<set_n (key_set key)]) False"

definition public_A :: "('r, 'b, 's) bliss_lib \<Rightarrow> private_bliss_private_key_t \<Rightarrow> uint32_t list" where
  "public_A lib key =
     map (\<lambda>i. (key_S2 lib key ! i * the (invert (key_S1 lib key ! i) (set_q (key_set key))))
               mod ucast (set_q (key_set key)))
       [0..<set_n (key_set key)]"

text \<open>What the \<open>do ... while\<close> loop guarantees when it is entered with at most
  \<open>SECRET_KEY_TRIALS_MAX\<close> trials made.\<close>

definition gen_post ::
  "('r, 'b, 's) bliss_lib \<Rightarrow> private_bliss_private_key_t \<Rightarrow>
   (failure + private_bliss_private_key_t) \<Rightarrow> bool" where
  "gen_post lib this res \<longleftrightarrow>
     (\<forall>key. res = Inr key \<longrightarrow>
        key_set key = key_set this
      \<and> (\<exists>nks. nks_norm_by (libc_qsort lib) (key_s1 key) (key_s2 key) (set_n (key_set key)) (set_kappa (key_set key))
                   = Some nks \<and> nks < set_nks_max (key_set key))
      \<and> (\<exists>A. public_key_loop (set_q (key_set key)) (key_S1 lib key) (key_S2 lib key)
                 (set_n (key_set key)) 0 (replicate (set_n (key_set key)) 0) = Inr A
              \<and> key_a key = fft_transform lib (set_fft_params (key_set key)) A True))"

subsection \<open>Two generators that deliver the same bytes\<close>

text \<open>
  \<open>rng_same_bytes get_bytes1 get_bytes2 len k r1 r2\<close>: the first \<open>k\<close> requests for \<open>len\<close>
  bytes are answered alike by the first generator from its state \<open>r1\<close> and by the second
  from its state \<open>r2\<close>: both refuse, or both deliver the same bytes.
\<close>

fun rng_same_bytes ::
  "('r \<Rightarrow> nat \<Rightarrow> (chunk_t \<times> 'r) option) \<Rightarrow> ('r \<Rightarrow> nat \<Rightarrow> (chunk_t \<times> 'r) option) \<Rightarrow>
   nat \<Rightarrow> nat \<Rightarrow> 'r \<Rightarrow> 'r \<Rightarrow> bool" where
  "rng_same_bytes get_bytes1 get_bytes2 len 0 r1 r2 = True"
| "rng_same_bytes get_bytes1 get_bytes2 len (Suc k) r1 r2 =
     (case get_bytes1 r1 len of
        None \<Rightarrow> get_bytes2 r2 len = None
      | Some (b1, r1') \<Rightarrow>
          (case get_bytes2 r2 len of
             None \<Rightarrow> False
           | Some (b2, r2') \<Rightarrow>
               b1 = b2 \<and> rng_same_bytes get_bytes1 get_bytes2 len k r1' r2'))"

text \<open>The seed length \<open>sign_bliss_with_sha512\<close> asks the generator for.\<close>

definition sign_seed_len :: "private_bliss_private_key_t \<Rightarrow> nat" where
  "sign_seed_len this =
     (if set_strength (key_set this) > 160 then HASH_SIZE_SHA256 else HASH_SIZE_SHA1)"

subsection \<open>A small instance of the collaborators\<close>

text \<open>
  A parameter set with \<open>n = 2\<close> and \<open>q = 5\<close>, the number-theoretic transform of
  \<open>Z\<^sub>5[x]/(x\<^sup>2 + 1)\<close> (evaluation at the roots 2 and 3 of \<open>x\<^sup>2 + 1\<close>) and its inverse, a
  counter as random number generator, a bit spender that hands out the low bits of the
  seed bytes one after the other, and a sampler that accepts everything.  The model is
  run on this instance where a statement needs an example.
\<close>

definition toy_fft_params :: bliss_fft_params_t where
  "toy_fft_params = \<lparr>fft_q = 5, fft_n = 2\<rparr>"

definition toy_set :: bliss_param_set_t where
  "toy_set = \<lparr>set_strength = 128, set_q = 5, set_q2_inv = 3, set_n = 2, set_n_bits = 1,
     set_fft_params = toy_fft_params, set_non_zero1 = 1, set_non_zero2 = 0, set_kappa = 1,
     set_nks_max = 100, set_p = 4, set_M = 50\<rparr>"

definition toy_fft :: "bliss_fft_params_t \<Rightarrow> uint32_t list \<Rightarrow> bool \<Rightarrow> uint32_t list" where
  "toy_fft params xs inv_flag =
     (if inv_flag then [(3 * (xs ! 0 + xs ! 1)) mod 5, (4 * (xs ! 0 + 4 * xs ! 1)) mod 5]
      else [(xs ! 0 + 2 * xs ! 1) mod 5, (xs ! 0 + 3 * xs ! 1) mod 5])"

definition toy_lib :: "(nat, uint32_t list, nat) bliss_lib" where
  "toy_lib = \<lparr>
     lib_create_rng = (\<lambda>quality. Some 0),
     rng_get_bytes = (\<lambda>rng len. Some (replicate len (of_nat rng), rng + 1)),
     lib_create_hasher = (\<lambda>alg. Some (\<lambda>data. Some data)),
     mgf1_bitspender_create = (\<lambda>alg seed. Some (map ucast seed)),
     bitspender_get_bits = (\<lambda>bs k. case bs of [] \<Rightarrow> None | b # bs' \<Rightarrow> Some (b mod 2 ^ k, bs')),
     bliss_param_set_get_by_id = (\<lambda>id. if id = 1 then Some toy_set else None),
     fft_transform = toy_fft,
     bliss_sampler_create = (\<lambda>alg seed pset. Some 0),
     sampler_gaussian = (\<lambda>s. Some (of_nat s, s + 1)),
     sampler_bernoulli_exp = (\<lambda>s x. Some (True, s)),
     sampler_bernoulli_cosh = (\<lambda>s x. Some (True, s)),
     sampler_sign = (\<lambda>s. Some (True, s)),
     bliss_utils_round_and_drop = (\<lambda>pset u. map (\<lambda>x. ucast x mod 4) u),
     bliss_utils_generate_c = (\<lambda>hasher data_hash ud n kappa. Some [0]),
     bliss_utils_scalar_product = (\<lambda>x y n. sum_list (map (\<lambda>i. x ! i * y ! i) [0..<n])),
     bliss_utils_check_norms = (\<lambda>pset z1 z2d. True),
     bliss_signature_get_encoding = (\<lambda>pset z1 z2d c. map ucast z1 @ map ucast z2d @ map ucast c),
     libc_qsort = qsort
   \<rparr>"

definition toy_key :: private_bliss_private_key_t where
  "toy_key = \<lparr>key_set = toy_set, key_s1 = [- 1, 0], key_s2 = [1, 2], key_a = [1, 2]\<rparr>"

text \<open>
  A variant in which the seed matters: the sampler starts from the first seed byte, and
  the first rejection test accepts only from sampler state 5 on.  With it, and with a
  second generator that counts in twos, a signature takes two rounds.
\<close>

definition toy_lib_seeded :: "(nat, uint32_t list, nat) bliss_lib" where
  "toy_lib_seeded =
     toy_lib\<lparr>bliss_sampler_create := (\<lambda>alg seed pset. Some (unat (hd seed))),
              sampler_bernoulli_exp := (\<lambda>s x. Some (5 \<le> s, s))\<rparr>"

definition toy_get_bytes2 :: "nat \<Rightarrow> nat \<Rightarrow> (chunk_t \<times> nat) option" where
  "toy_get_bytes2 rng len = Some (replicate len (of_nat (rng div 2)), rng + 2)"

section \<open>Properties\<close>

subsection \<open>Sixteen-bit words\<close>

lemma sint_word_of_int_16:
  "- 32768 \<le> x \<Longrightarrow> x < 32768 \<Longrightarrow> sint (word_of_int x :: 16 word) = x"
  by (simp add: int_word_sint)


lemma uint_bound_16: "uint (w :: 16 word) < 65536"
  using uint_lt2p [of w] by simp

lemma sint_of_int_16:
  "\<bar>x\<bar> \<le> 16383 \<Longrightarrow> sint (word_of_int x :: 16 word) = x"
  by (simp add: int_word_sint)

subsection \<open>Fermat's little theorem\<close>

lemma is_prime_coprime:
  assumes "is_prime p" "0 < k" "k < p"
  shows "coprime p k"
proof (rule coprimeI)
  fix c assume c: "c dvd p" "c dvd k"
  from c(2) assms(2) have "c \<le> k" by (simp add: dvd_imp_le)
  with assms(3) have "c < p" by simp
  moreover from c(2) assms(2) have "c \<noteq> 0" by auto
  ultimately have "c = 1 \<or> c \<in> {2..<p}" by auto
  with c(1) assms(1) show "is_unit c" by (auto simp: is_prime_def)
qed

lemma is_prime_dvd_choose:
  assumes "is_prime p" "0 < k" "k < p"
  shows "p dvd (p choose k)"
proof -
  have "k * (p choose k) = p * ((p - 1) choose (k - 1))"
    using assms(2) by (rule times_binomial_minus1_eq)
  then have "p dvd k * (p choose k)" by simp
  moreover have "coprime p k" using assms by (rule is_prime_coprime)
  ultimately show ?thesis by (simp add: coprime_dvd_mult_right_iff)
qed

lemma freshman_dream:
  assumes "is_prime p"
  shows "(x + 1) ^ p mod p = (x ^ p + 1) mod (p::nat)"
proof -
  have p: "1 < p" using assms by (simp add: is_prime_def)
  have "(x + 1) ^ p = (\<Sum>k\<le>p. (p choose k) * x ^ k)"
    using binomial_ring [of x 1 p] by simp
  also have "{..p} = insert 0 (insert p {1..<p})" using p by auto
  also have "(\<Sum>k\<in>insert 0 (insert p {1..<p}). (p choose k) * x ^ k)
      = 1 + (x ^ p + (\<Sum>k\<in>{1..<p}. (p choose k) * x ^ k))"
    using p by simp
  finally have eq: "(x + 1) ^ p = (x ^ p + 1) + (\<Sum>k\<in>{1..<p}. (p choose k) * x ^ k)"
    by simp
  have "p dvd (\<Sum>k\<in>{1..<p}. (p choose k) * x ^ k)"
    by (rule dvd_sum) (auto intro!: dvd_mult2 is_prime_dvd_choose assms)
  then show ?thesis unfolding eq by (metis mod_add_self2 dvd_def mod_mult_self2)
qed

lemma fermat_power: 
  assumes "is_prime p"
  shows "x ^ p mod p = x mod (p::nat)"
proof (induction x)
  case 0
  then show ?case using assms by (simp add: is_prime_def zero_power)
next
  case (Suc x)
  have "Suc x ^ p mod p = (x ^ p + 1) mod p"
    using freshman_dream [OF assms, of x] by simp
  also have "\<dots> = (x ^ p mod p + 1) mod p" by (rule mod_add_left_eq [symmetric])
  also have "\<dots> = (x mod p + 1) mod p" by (simp only: Suc.IH)
  also have "\<dots> = (x + 1) mod p" by (rule mod_add_left_eq)
  finally show ?case by simp
qed

lemma fermat_little:
  assumes "is_prime p" "0 < x" "x < p"
  shows "x ^ (p - 1) mod p = (1::nat)"
proof -
  have p: "1 < p" using assms by (simp add: is_prime_def)
  have cop: "coprime p x" using assms by (rule is_prime_coprime)
  have "x ^ p mod p = x mod p" using assms(1) by (rule fermat_power)
  then have "p dvd x ^ p - x"
    by (metis mod_eq_dvd_iff_nat less_or_eq_imp_le nat_le_linear dvd_0_right diff_is_0_eq)
  moreover have "x ^ p - x = x * (x ^ (p - 1) - 1)"
    using p by (cases p) (simp_all add: algebra_simps)
  ultimately have "p dvd x ^ (p - 1) - 1"
    using cop by (simp add: coprime_dvd_mult_right_iff)
  moreover have "1 \<le> x ^ (p - 1)" using assms(2) by simp
  ultimately have "x ^ (p - 1) mod p = 1 mod p"
    by (metis mod_eq_dvd_iff_nat)
  then show ?thesis using p by simp
qed

subsection \<open>invert\<close>

declare invert_loop.simps [simp del]
declare i_max_search.simps [simp del]


lemma uint_and_push_bit: "((uint (w::'a::len word)) AND push_bit i 1 \<noteq> 0) = bit w i"
proof -
  have "bit (uint w) i = (uint w AND push_bit i 1 \<noteq> 0)"
    by (rule bit_iff_and_push_bit_not_eq_0)
  moreover have "bit (uint w) i = bit w i" by (auto simp: bit_uint_iff dest: bit_imp_le_length)
  ultimately show ?thesis by simp
qed

lemma uint_and_exp: "(uint (w::'a::len word) AND 2 ^ i = 0) = (\<not> bit w i)"
  using uint_and_push_bit [of w i] by auto

lemma i_max_search_Some:
  "i_max_search q2 k = Some m \<Longrightarrow> m \<le> k \<and> bit q2 m \<and> (\<forall>j. m < j \<and> j \<le> k \<longrightarrow> \<not> bit q2 j)"
proof (induction k)
  case 0
  then show ?case
    by (auto simp: i_max_search.simps [of q2 0] uint_and_push_bit [symmetric] split: if_splits)
next
  case (Suc k)
  show ?case
  proof (cases "bit q2 (Suc k)")
    case True
    with Suc.prems show ?thesis
      by (auto simp: i_max_search.simps [of q2 "Suc k"] uint_and_push_bit [symmetric] split: if_splits)
  next
    case False
    with Suc.prems have "i_max_search q2 k = Some m"
      by (auto simp: i_max_search.simps [of q2 "Suc k"] uint_and_push_bit [symmetric] split: if_splits)
    from Suc.IH [OF this] False show ?thesis
      by (auto simp: le_Suc_eq)
  qed
qed

lemma i_max_search_None:
  "i_max_search q2 k = None \<Longrightarrow> j \<le> k \<Longrightarrow> \<not> bit q2 j"
proof (induction k)
  case 0
  then show ?case
    by (auto simp: i_max_search.simps [of q2 0] uint_and_push_bit [symmetric] split: if_splits)
next
  case (Suc k)
  then show ?case
    by (auto simp: i_max_search.simps [of q2 "Suc k"] uint_and_push_bit [symmetric] le_Suc_eq split: if_splits)
qed

lemma i_max_search_15:
  assumes "q2 \<noteq> 0"
  shows "\<exists>m. i_max_search q2 15 = Some m \<and> m \<le> 15 \<and> unat q2 < 2 ^ Suc m"
proof (cases "i_max_search q2 15")
  case None
  have "q2 = 0"
  proof (rule bit_eqI)
    fix j assume "possible_bit TYPE(16 word) j"
    then have "j \<le> 15" by (simp add: possible_bit_def)
    with None show "bit q2 j = bit (0::16 word) j" by (simp add: i_max_search_None)
  qed
  with assms show ?thesis by simp
next
  case (Some m)
  from i_max_search_Some [OF Some] have m: "m \<le> 15" 
    and hi: "\<And>j. m < j \<Longrightarrow> j \<le> 15 \<Longrightarrow> \<not> bit q2 j" by auto
  have "take_bit (Suc m) q2 = q2"
  proof (rule bit_eqI)
    fix j assume "possible_bit TYPE(16 word) j"
    then have "j \<le> 15" by (simp add: possible_bit_def)
    then show "bit (take_bit (Suc m) q2) j = bit q2 j"
      using hi [of j] by (cases "m < j") (auto simp: bit_take_bit_iff)
  qed
  then have "unat q2 = take_bit (Suc m) (unat q2)" by (metis unsigned_take_bit_eq)
  then have "unat q2 < 2 ^ Suc m" by (metis take_bit_nat_less_exp)
  with Some m show ?thesis by simp
qed


lemma sq_step: "a = X ^ e mod N \<Longrightarrow> (a * a) mod N = X ^ (e * 2) mod (N::nat)"
  by (simp add: power_mult power2_eq_square mod_mult_eq)

lemma mul_step:
  "a = X ^ e mod N \<Longrightarrow> b = X ^ f mod N \<Longrightarrow> (a * b) mod N = X ^ (e + f) mod (N::nat)"
  by (simp add: power_add mod_mult_eq)

lemma mod_exp_Suc:
  "(Q::nat) mod (2 * 2 ^ i) = Q mod 2 ^ i + (if bit Q i then 2 ^ i else 0)"
  using take_bit_Suc_from_most [of i Q] by (simp add: take_bit_eq_mod)

lemma unat_ucast_16_32: "unat (ucast (q::16 word) :: 32 word) = unat q"
proof -
  have "unat q < 2 ^ 16" using unsigned_less [of q] by simp
  then have "unat q < 2 ^ 32" by simp
  then show ?thesis by (simp add: unsigned_ucast_eq take_bit_nat_eq_self)
qed

lemma unat_mul_mod:
  fixes a b :: "32 word" and q :: "16 word"
  assumes "unat a < unat q" "unat b < unat q"
  shows "unat ((a * b) mod ucast q) = (unat a * unat b) mod unat q"
proof -
  have q: "unat q < 2 ^ 16" using unsigned_less [of q] by simp
  have "unat a * unat b < 2 ^ 16 * 2 ^ 16"
    using assms q by (intro mult_strict_mono) auto
  then have "unat (a * b) = unat a * unat b"
    by (simp add: unat_mult_lem [symmetric])
  moreover have "unat (ucast q :: 32 word) = unat q"
    by (rule unat_ucast_16_32)
  ultimately show ?thesis by (simp add: unat_mod)
qed

lemma invert_loop_correct:
  "0 < unat q \<Longrightarrow> 1 \<le> i \<Longrightarrow> i \<le> Suc i_max \<Longrightarrow>
     unat x2 = X ^ (2 ^ (i - 1)) mod unat q \<Longrightarrow>
     unat x1 = X ^ (unat q2 mod 2 ^ i) mod unat q \<Longrightarrow>
     unat (invert_loop q q2 i_max i x1 x2) = X ^ (unat q2 mod 2 ^ Suc i_max) mod unat q"
proof (induction q q2 i_max i x1 x2 rule: invert_loop.induct)
  case (1 q q2 i_max i x1 x2)
  note N = "1.prems"(1) and i1 = "1.prems"(2) and i2 = "1.prems"(3) 
    and inv2 = "1.prems"(4) and inv1 = "1.prems"(5)
  show ?case
  proof (cases "i \<le> i_max")
    case False
    with "1.prems" have "i = Suc i_max" by simp
    with False "1.prems" show ?thesis by (simp add: invert_loop.simps [of q q2 i_max "Suc i_max"])
  next
    case True
    define x2' where "x2' = (x2 * x2) mod ucast q"
    define x1' where "x1' = (if (uint q2) AND (push_bit i 1) \<noteq> 0 then (x1 * x2') mod ucast q else x1)"
    have lt2: "unat x2 < unat q" and lt1: "unat x1 < unat q"
      using mod_less_divisor [OF N] by (simp_all only: inv1 inv2)
    from i1 have i: "2 ^ (i - 1) * 2 = (2::nat) ^ i"
      by (cases i) simp_all
    have "unat x2' = (unat x2 * unat x2) mod unat q"
      by (simp add: x2'_def unat_mul_mod lt2)
    also have "\<dots> = X ^ (2 ^ (i - 1) * 2) mod unat q"
      using inv2 by (rule sq_step)
    finally have x2': "unat x2' = X ^ (2 ^ i) mod unat q"
      by (simp only: i)
    then have lt2': "unat x2' < unat q" using N by simp
    have x1': "unat x1' = X ^ (unat q2 mod 2 ^ Suc i) mod unat q"
    proof (cases "bit q2 i")
      case True
      then have "unat x1' = (unat x1 * unat x2') mod unat q"
        by (simp add: x1'_def uint_and_exp unat_mul_mod lt1 lt2')
      also have "\<dots> = X ^ (unat q2 mod 2 ^ i + 2 ^ i) mod unat q"
        using inv1 x2' by (rule mul_step)
      finally show ?thesis using True by (simp add: mod_exp_Suc bit_unsigned_iff)
    next
      case False
      then have "unat x1' = unat x1" by (simp add: x1'_def uint_and_exp)
      with inv1 False show ?thesis by (simp add: mod_exp_Suc bit_unsigned_iff)
    qed
    have step: "invert_loop q q2 i_max i x1 x2 = invert_loop q q2 i_max (i + 1) x1' x2'"
      unfolding x1'_def x2'_def using True
      by (subst invert_loop.simps) (simp add: Let_def)
    have "unat (invert_loop q q2 i_max (i + 1) x1' x2') = X ^ (unat q2 mod 2 ^ Suc i_max) mod unat q"
      using True x2' x1' N by (intro "1.IH" [OF True x2'_def x1'_def]) simp_all
    then show ?thesis by (simp only: step)
  qed
qed

lemma invert_correct:
  assumes prime: "is_prime (unat q)" and odd: "odd (unat q)"
    and x: "0 < x" "x < ucast q"
  shows "\<exists>y. invert x q = Some y \<and> unat y = unat x ^ (unat q - 2) mod unat q
           \<and> (x * y) mod ucast q = 1"
proof -
  have N: "1 < unat q" using prime by (simp add: is_prime_def)
  with odd have N3: "3 \<le> unat q" by (cases "unat q = 2") auto
  have q0: "q \<noteq> 0" using N by auto
  have q2: "unat (q - 2) = unat q - 2"
    using N3 by (simp add: unat_sub word_le_nat_alt)
  then have "unat (q - 2) \<noteq> 0" using N3 by simp
  then have "q - 2 \<noteq> 0" by auto
  from i_max_search_15 [OF this] obtain m where m: "i_max_search (q - 2) 15 = Some m"
    and lt: "unat (q - 2) < 2 ^ Suc m" by auto
  have xq: "unat x < unat q" using x(2) by (simp add: word_less_nat_alt unat_ucast_16_32)
  have x0: "0 < unat x" using x(1) by (simp add: word_greater_zero_iff unat_gt_0)
  define x1 where "x1 = (if (uint (q - 2)) AND 1 \<noteq> 0 then x else 1)"
  define y where "y = invert_loop q (q - 2) m 1 x1 x"
  have inv: "invert x q = Some y"
    using m q0 by (simp add: invert_def Let_def y_def x1_def)
  have bit0: "((uint (q - 2)) AND 1 \<noteq> 0) = bit (q - 2) 0"
    using uint_and_push_bit [of "q - 2" 0] by simp
  have "bit (unat (q - 2)) 0 = bit (q - 2) 0" by (simp add: bit_unsigned_iff)
  then have b0: "bit (q - 2) 0 = odd (unat (q - 2))" by (simp add: bit_0)
  have init1: "unat x1 = unat x ^ (unat (q - 2) mod 2 ^ 1) mod unat q"
  proof (cases "odd (unat (q - 2))")
    case True
    then have "unat (q - 2) mod 2 = 1" by (simp add: odd_iff_mod_2_eq_one)
    with True xq show ?thesis by (simp add: x1_def bit0 b0)
  next
    case False
    then have "unat (q - 2) mod 2 = 0" by simp
    with False N show ?thesis by (simp add: x1_def bit0 b0)
  qed
  have "unat y = unat x ^ (unat (q - 2) mod 2 ^ Suc m) mod unat q"
    unfolding y_def using xq init1 N by (intro invert_loop_correct) simp_all
  with lt q2 have y: "unat y = unat x ^ (unat q - 2) mod unat q" by simp
  then have yq: "unat y < unat q" using N by simp
  have "unat ((x * y) mod ucast q) = (unat x * unat y) mod unat q"
    using xq yq by (rule unat_mul_mod)
  also have "\<dots> = (unat x ^ 1 * unat x ^ (unat q - 2)) mod unat q"
    by (simp add: y mod_mult_right_eq)
  also have "unat x ^ 1 * unat x ^ (unat q - 2) = unat x ^ (1 + (unat q - 2))"
    by (simp only: power_add)
  also have "1 + (unat q - 2) = unat q - 1" using N3 by simp
  also have "unat x ^ (unat q - 1) mod unat q = 1"
    using prime x0 xq by (rule fermat_little)
  finally have "(x * y) mod ucast q = 1" by (simp add: word_unat_eq_iff)
  with inv y show ?thesis by blast
qed

text \<open>
  C4.  For an odd prime \<open>q\<close> (a \<open>uint16_t\<close>) and \<open>0 < x < q\<close>, \<open>invert x q\<close> returns
  \<open>x ^ (q - 2) mod q\<close>, and the \<open>uint32_t\<close> product \<open>x * invert x q\<close> reduced modulo \<open>q\<close>
  is 1.
\<close>

theorem invert_fermat:
  assumes "is_prime (unat q)" and "odd (unat q)" and "0 < x" and "x < ucast q"
  shows "\<exists>y. invert x q = Some y \<and> unat y = unat x ^ (unat q - 2) mod unat q
           \<and> (x * y) mod ucast q = 1"
  using assms by (rule invert_correct)

theorem invert_fermat_witness:
  "invert 3 5 = Some 2 \<and> unat (2::32 word) = unat (3::32 word) ^ (unat (5::16 word) - 2) mod unat (5::16 word)
     \<and> ((3::32 word) * 2) mod ucast (5::16 word) = 1"
proof -
  have "is_prime (unat (5::16 word))" by (simp add: is_prime_def) code_simp
  moreover have "odd (unat (5::16 word))" by simp
  moreover have "(0::32 word) < 3" by simp
  moreover have "(3::32 word) < ucast (5::16 word)" by simp
  ultimately obtain y where "invert 3 5 = Some y" 
    "unat y = unat (3::32 word) ^ (unat (5::16 word) - 2) mod unat (5::16 word)"
    "((3::32 word) * y) mod ucast (5::16 word) = 1" 
    using invert_fermat [of 5 3] by blast
  moreover have "invert 3 5 = Some 2" by code_simp
  ultimately show ?thesis by simp
qed

subsection \<open>The z2d derivation\<close>




subsection \<open>nks\_norm against the norm of the specification\<close>

lemma fold_add_of_int:
  "fold (\<lambda>i p. word_of_int (sint p + f i)) xs (p :: 'a::len word) = p + word_of_int (sum_list (map f xs))"
  by (induction xs arbitrary: p) (simp_all add: algebra_simps)

lemma fold_sub_of_int:
  "fold (\<lambda>i p. word_of_int (sint p - f i)) xs (p :: 'a::len word) = p - word_of_int (sum_list (map f xs))"
  by (induction xs arbitrary: p) (simp_all add: algebra_simps)

lemma fold_add_word:
  "fold (\<lambda>i p. p + g i) xs (p :: 'a::len word) = p + sum_list (map g xs)"
  by (induction xs arbitrary: p) (simp_all add: algebra_simps)

lemma wrapped_product_of_int:
  "wrapped_product x y n s =
     word_of_int ((\<Sum>i\<leftarrow>[0..<n - s]. sint (x ! i) * sint (y ! (i + s)))
                - (\<Sum>i\<leftarrow>[n - s..<n]. sint (x ! i) * sint (y ! (i + s - n))))"
  unfolding wrapped_product_def Let_def fold_add_of_int fold_sub_of_int by simp

lemma sum_list_upt_sum: "(\<Sum>i\<leftarrow>[a..<b]. f i) = (\<Sum>i = a..<b. (f i :: int))"
  by (simp add: interv_sum_list_conv_sum_set_nat)

lemma length_neg_rotate [simp]: "length (neg_rotate s t) = length t"
  by (simp add: neg_rotate_def)

lemma inner_product_neg_rotate:
  assumes "s \<le> length x"
  shows "inner_product x (neg_rotate s x) =
     (\<Sum>i\<leftarrow>[0..<length x - s]. x ! i * x ! (i + s))
       - (\<Sum>i\<leftarrow>[length x - s..<length x]. x ! i * x ! (i + s - length x))"
proof -
  define n where "n = length x"
  have s: "s \<le> n" using assms by (simp add: n_def)
  have "map2 (*) x (neg_rotate s x)
      = map (\<lambda>k. x ! k * (if k < s then - (x ! (k + n - s)) else x ! (k - s))) [0..<n]"
    by (rule nth_equalityI) (simp_all add: neg_rotate_def n_def)
  then have "inner_product x (neg_rotate s x)
      = (\<Sum>k = 0..<n. x ! k * (if k < s then - (x ! (k + n - s)) else x ! (k - s)))"
    by (simp add: inner_product_def sum_list_upt_sum)
  also have "{0..<n} = {0..<s} \<union> {s..<n}" using s by auto
  also have "(\<Sum>k\<in>{0..<s} \<union> {s..<n}. x ! k * (if k < s then - (x ! (k + n - s)) else x ! (k - s)))
      = (\<Sum>k = 0..<s. x ! k * - (x ! (k + n - s))) + (\<Sum>k = s..<n. x ! k * x ! (k - s))"
    by (subst sum.union_disjoint) auto
  also have "(\<Sum>k = s..<n. x ! k * x ! (k - s)) = (\<Sum>i = 0..<n - s. x ! i * x ! (i + s))"
    using s by (intro sum.reindex_bij_witness [of _ "\<lambda>i. i + s" "\<lambda>k. k - s"]) (auto simp: mult.commute)
  also have "(\<Sum>k = 0..<s. x ! k * - (x ! (k + n - s)))
      = - (\<Sum>i = n - s..<n. x ! i * x ! (i + s - n))"
    unfolding sum_negf [symmetric]
    using s by (intro sum.reindex_bij_witness [of _ "\<lambda>i. i + s - n" "\<lambda>k. k + n - s"]) (auto simp: mult.commute)
  finally show ?thesis by (simp add: sum_list_upt_sum n_def)
qed

lemma wrapped_product_spec:
  assumes "length x = n" "s \<le> n"
  shows "wrapped_product x x n s = word_of_int (inner_product (map sint x) (neg_rotate s (map sint x)))"
proof -
  have "inner_product (map sint x) (neg_rotate s (map sint x)) =
     (\<Sum>i\<leftarrow>[0..<n - s]. sint (x ! i) * sint (x ! (i + s)))
       - (\<Sum>i\<leftarrow>[n - s..<n]. sint (x ! i) * sint (x ! (i + s - n)))"
    using assms by (subst inner_product_neg_rotate) (auto intro!: arg_cong2 [of _ _ _ _ "(-)"] arg_cong [of _ _ sum_list] simp: )
  then show ?thesis by (simp add: wrapped_product_of_int)
qed

lemma length_fold_update [simp]:
  "length (fold (\<lambda>i xw. xw[f i := g i]) is xw) = length xw"
  by (induction "is" arbitrary: xw) simp_all

lemma fold_update_shift_nth:
  "k < length xw \<Longrightarrow>
   fold (\<lambda>i xw. xw[i + s := g i]) [0..<m] xw ! k = (if s \<le> k \<and> k < m + s then g (k - s) else xw ! k)"
proof (induction m)
  case 0
  then show ?case by auto
next
  case (Suc m)
  then show ?case by (auto simp: nth_list_update less_Suc_eq)
qed

lemma fold_update_wrap_nth:
  "k < length xw \<Longrightarrow> s \<le> n \<Longrightarrow> m \<le> s \<Longrightarrow>
   fold (\<lambda>i xw. xw[i + s - n := g i]) [n - s..<n - s + m] xw ! k
     = (if k < m then g (k + n - s) else xw ! k)"
proof (induction m)
  case 0
  then show ?case by simp
next
  case (Suc m)
  then show ?case by (auto simp: nth_list_update less_Suc_eq add.commute)
qed

lemma wrap_eq:
  assumes "length x = n" "length xw = n" "s \<le> n"
  shows "wrap x n s xw = map (\<lambda>k. if k < s then - (x ! (k + n - s)) else x ! (k - s)) [0..<n]"
proof (rule nth_equalityI)
  show "length (wrap x n s xw) = length (map (\<lambda>k. if k < s then - (x ! (k + n - s)) else x ! (k - s)) [0..<n])"
    using assms by (simp add: wrap_def Let_def)
next
  fix k assume "k < length (wrap x n s xw)"
  then have k: "k < n" using assms by (simp add: wrap_def Let_def)
  have "wrap x n s xw ! k =
     fold (\<lambda>i xw. xw[i + s - n := word_of_int (- sint (x ! i))]) [n - s..<n - s + s]
       (fold (\<lambda>i xw. xw[i + s := x ! i]) [0..<n - s] xw) ! k"
    using assms by (simp add: wrap_def Let_def)
  also have "\<dots> = (if k < s then word_of_int (- sint (x ! (k + n - s)))
                    else fold (\<lambda>i xw. xw[i + s := x ! i]) [0..<n - s] xw ! k)"
    using assms k by (subst fold_update_wrap_nth) simp_all
  also have "\<dots> = (if k < s then - (x ! (k + n - s)) else x ! (k - s))"
    using assms k by (simp add: fold_update_shift_nth)
  finally show "wrap x n s xw ! k = map (\<lambda>k. if k < s then - (x ! (k + n - s)) else x ! (k - s)) [0..<n] ! k"
    using k by simp
qed

lemma of_int_neg_rotate:
  "length T = n \<Longrightarrow> s \<le> n \<Longrightarrow> wrap (map word_of_int T) n s (replicate n 0) = map word_of_int (neg_rotate s T)"
  by (subst wrap_eq) (auto simp: neg_rotate_def)

lemma compare_of_int:
  assumes "\<bar>a\<bar> \<le> 16383" "\<bar>b\<bar> \<le> 16383"
  shows "(compare (word_of_int a) (word_of_int b) \<le> 0) = (a \<le> b)"
proof -
  have d: "sint (word_of_int (a - b) :: 16 word) = a - b"
    using assms by (intro sint_word_of_int_16) simp_all
  have "compare (word_of_int a) (word_of_int b)
      = (if sint (word_of_int (a - b) :: 16 word) > 0 then 1
         else if sint (word_of_int (a - b) :: 16 word) < 0 then - 1 else 0)"
    unfolding compare_def Let_def sint_of_int_16 [OF assms(1)] sint_of_int_16 [OF assms(2)] ..
  then show ?thesis unfolding d by simp
qed

lemma qsort_insert_of_int:
  "\<bar>a\<bar> \<le> 16383 \<Longrightarrow> \<forall>y \<in> set ys. \<bar>y\<bar> \<le> 16383 \<Longrightarrow>
   qsort_insert compare (word_of_int a) (map word_of_int ys) = map word_of_int (insort a ys)"
  by (induction ys) (simp_all add: compare_of_int)

lemma qsort_of_int:
  "\<forall>x \<in> set xs. \<bar>x\<bar> \<le> 16383 \<Longrightarrow>
   qsort compare (map word_of_int xs) = map word_of_int (sort xs)"
proof (induction xs)
  case Nil
  then show ?case by (simp add: qsort_def)
next
  case (Cons x xs)
  then have "qsort compare (map word_of_int xs) = map word_of_int (sort xs)" by simp
  moreover have "qsort compare (map word_of_int (x # xs))
      = qsort_insert compare (word_of_int x) (qsort compare (map word_of_int xs))"
    by (simp add: qsort_def)
  ultimately show ?case using Cons.prems by (simp add: qsort_insert_of_int)
qed

lemma of_int_sum_list_sint:
  "(word_of_int (sum_list (map (\<lambda>j. sint (word_of_int (f j) :: 'a word)) xs)) :: 'a::len word)
     = word_of_int (sum_list (map f xs))"
  by (induction xs) simp_all

lemma sum_list_take_rev:
  assumes "k \<le> length S"
  shows "(\<Sum>j\<leftarrow>[1..<Suc k]. (S ! (length S - j) :: int)) = sum_list (take k (rev S))"
proof -
  have "take k (rev S) = map (\<lambda>j. S ! (length S - Suc j)) [0..<k]"
    using assms by (intro nth_equalityI) (simp_all add: rev_nth)
  moreover have "[1..<Suc k] = map Suc [0..<k]"
    by (simp add: map_Suc_upt)
  ultimately show ?thesis by (simp add: comp_def)
qed

lemma top_fold_16:
  assumes "length S = n" "k \<le> n"
  shows "fold (\<lambda>j m. word_of_int (sint m + sint ((map word_of_int S :: 16 word list) ! (n - j))))
           [1..<Suc k] (0 :: 16 word) = word_of_int (sum_list (take k (rev S)))"
proof -
  have "map (\<lambda>j. sint ((map word_of_int S :: 16 word list) ! (n - j))) [1..<Suc k]
      = map (\<lambda>j. sint (word_of_int (S ! (n - j)) :: 16 word)) [1..<Suc k]"
    using assms by (intro map_cong refl) auto
  then have "fold (\<lambda>j m. word_of_int (sint m + sint ((map word_of_int S :: 16 word list) ! (n - j))))
           [1..<Suc k] (0 :: 16 word)
      = (word_of_int (\<Sum>j\<leftarrow>[1..<Suc k]. sint (word_of_int (S ! (n - j)) :: 16 word)) :: 16 word)"
    by (simp only: fold_add_of_int add_0_left)
  also have "\<dots> = word_of_int (\<Sum>j\<leftarrow>[1..<Suc k]. S ! (n - j))"
    by (rule of_int_sum_list_sint)
  also have "(\<Sum>j\<leftarrow>[1..<Suc k]. S ! (n - j)) = sum_list (take k (rev S))"
    using assms sum_list_take_rev [of k S] by simp
  finally show ?thesis .
qed

lemma of_int_sum_list_32:
  "(sum_list (map (\<lambda>j. word_of_int (f j)) xs) :: 32 word) = word_of_int (sum_list (map f xs))"
  by (induction xs) simp_all

lemma top_fold_32:
  assumes "length S = n" "k \<le> n" "\<forall>x \<in> set S. \<bar>x\<bar> \<le> 16383"
  shows "fold (\<lambda>i nks. nks + word_of_int (sint ((map word_of_int S :: 16 word list) ! (n - i))))
           [1..<Suc k] (0 :: 32 word) = word_of_int (sum_list (take k (rev S)))"
proof -
  have "map (\<lambda>i. (word_of_int (sint ((map word_of_int S :: 16 word list) ! (n - i))) :: 32 word)) [1..<Suc k]
      = map (\<lambda>i. word_of_int (S ! (n - i))) [1..<Suc k]"
  proof (intro map_cong refl)
    fix i assume "i \<in> set [1..<Suc k]"
    then have i: "n - i < length S" using assms by auto
    then have "\<bar>S ! (n - i)\<bar> \<le> 16383" using assms(3) by simp
    then show "(word_of_int (sint ((map word_of_int S :: 16 word list) ! (n - i))) :: 32 word)
        = word_of_int (S ! (n - i))"
      using i by (simp only: nth_map sint_of_int_16)
  qed
  then have "fold (\<lambda>i nks. nks + word_of_int (sint ((map word_of_int S :: 16 word list) ! (n - i))))
           [1..<Suc k] (0 :: 32 word) = sum_list (map (\<lambda>i. word_of_int (S ! (n - i))) [1..<Suc k])"
    by (simp only: fold_add_word add_0_left)
  also have "\<dots> = word_of_int (\<Sum>j\<leftarrow>[1..<Suc k]. S ! (n - j))"
    by (rule of_int_sum_list_32)
  also have "(\<Sum>j\<leftarrow>[1..<Suc k]. S ! (n - j)) = sum_list (take k (rev S))"
    using assms sum_list_take_rev [of k S] by simp
  finally show ?thesis .
qed

lemma nks_t_of_int:
  assumes "length s1 = n" "length s2 = n"
  shows "map (\<lambda>i. (word_of_int (sint (wrapped_product s1 s1 n i)
                               + sint (wrapped_product s2 s2 n i)) :: 16 word)) [0..<n]
       = map word_of_int (nks_spec_t (map sint s1) (map sint s2))"
  unfolding nks_spec_t_def using assms
  by (auto simp: wrapped_product_spec)

lemma neg_rotate_range:
  assumes "\<forall>x \<in> set T. \<bar>x\<bar> \<le> B" "i \<le> length T"
  shows "\<forall>x \<in> set (neg_rotate i T). \<bar>x\<bar> \<le> (B::int)"
  using assms by (auto simp: neg_rotate_def)

lemma max_kappa_of_int:
  assumes T: "length T = n" "\<forall>x \<in> set T. \<bar>x\<bar> \<le> 16383" and k: "k \<le> n" and i: "i < n"
  shows "fold (\<lambda>j m. word_of_int (sint m + sint (qsort compare (wrap (map word_of_int T) n i (replicate n 0)) ! (n - j))))
           [1..<Suc k] (0 :: 16 word) = word_of_int (top_sum k (neg_rotate i T))"
proof -
  have r: "\<forall>x \<in> set (neg_rotate i T). \<bar>x\<bar> \<le> 16383"
    using T i by (intro neg_rotate_range) simp_all
  have "qsort compare (wrap (map word_of_int T) n i (replicate n 0))
      = map word_of_int (sort (neg_rotate i T))"
    using T i r by (simp add: of_int_neg_rotate qsort_of_int)
  moreover have "length (sort (neg_rotate i T)) = n" using T by simp
  ultimately show ?thesis
    using k by (simp only: top_fold_16 top_sum_def)
qed

lemma nks_norm_of_int_spec:
  assumes len: "length s1 = n" "length s2 = n" and k: "unat kappa \<le> n"
    and range: "nks_in_range (map sint s1) (map sint s2) (unat kappa)"
  shows "nks_norm s1 s2 n kappa = Some (word_of_int (nks_spec (map sint s1) (map sint s2) (unat kappa)))"
proof -
  define T where "T = nks_spec_t (map sint s1) (map sint s2)"
  define M where "M = nks_spec_max_kappa (map sint s1) (map sint s2) (unat kappa)"
  have T: "length T = n" "\<forall>x \<in> set T. \<bar>x\<bar> \<le> 16383"
    using len range by (simp_all add: T_def nks_spec_t_def nks_in_range_def list_all_iff)
  have M: "length M = n" "\<forall>x \<in> set M. \<bar>x\<bar> \<le> 16383"
    using len range by (simp_all add: M_def nks_spec_max_kappa_def nks_in_range_def list_all_iff Let_def)
  have Mdef: "M = map (\<lambda>i. top_sum (unat kappa) (neg_rotate i T)) [0..<n]"
    using len by (simp add: M_def T_def nks_spec_max_kappa_def Let_def)
  have t16: "map (\<lambda>i. (word_of_int (sint (wrapped_product s1 s1 n i)
                               + sint (wrapped_product s2 s2 n i)) :: 16 word)) [0..<n]
       = map word_of_int T"
    unfolding T_def using len by (rule nks_t_of_int)
  have "map (\<lambda>i. fold (\<lambda>j m. word_of_int (sint m + sint (qsort compare (wrap (map word_of_int T) n i (replicate n 0)) ! (n - j))))
           [1..<Suc (unat kappa)] (0 :: 16 word)) [0..<n]
      = map (\<lambda>i. word_of_int (top_sum (unat kappa) (neg_rotate i T))) [0..<n]"
    using T k by (intro map_cong refl max_kappa_of_int) simp_all
  also have "\<dots> = map word_of_int M"
    by (simp only: Mdef map_map comp_def)
  finally have mk16: "map (\<lambda>i. fold (\<lambda>j m. word_of_int (sint m + sint (qsort compare (wrap (map word_of_int T) n i (replicate n 0)) ! (n - j))))
           [1..<Suc (unat kappa)] (0 :: 16 word)) [0..<n] = map word_of_int M" .
  have sorted: "qsort compare (map word_of_int M) = map word_of_int (sort M)"
    using M(2) by (rule qsort_of_int)
  have final: "fold (\<lambda>i nks. nks + word_of_int (sint ((map word_of_int (sort M) :: 16 word list) ! (n - i))))
           [1..<Suc (unat kappa)] (0 :: 32 word) = word_of_int (top_sum (unat kappa) M)"
    unfolding top_sum_def using M k by (intro top_fold_32) simp_all
  have "nks_norm s1 s2 n kappa = Some (word_of_int (top_sum (unat kappa) M))"
    using k unfolding nks_norm_def nks_norm_by_def Let_def t16 mk16 sorted final by simp
  then show ?thesis by (simp add: nks_spec_def M_def)
qed

lemma length_qsort_insert [simp]: "length (qsort_insert cmp x ys) = Suc (length ys)"
  by (induction ys) simp_all

lemma length_qsort [simp]: "length (qsort cmp xs) = length xs"
  by (induction xs) (simp_all add: qsort_def)

lemma sum_list_map_qsort_insert:
  "sum_list (map f (qsort_insert cmp x ys)) = (f x :: 'b :: comm_monoid_add) + sum_list (map f ys)"
  by (induction ys) (simp_all add: add.left_commute)

lemma sum_list_map_qsort:
  "sum_list (map f (qsort cmp xs)) = (sum_list (map f xs) :: 'b :: comm_monoid_add)"
proof (induction xs)
  case Nil
  then show ?case by (simp add: qsort_def)
next
  case (Cons x xs)
  have "qsort cmp (x # xs) = qsort_insert cmp x (qsort cmp xs)" by (simp add: qsort_def)
  with Cons show ?case by (simp add: sum_list_map_qsort_insert)
qed

lemma map_from_top:
  assumes "length ws = n"
  shows "map (\<lambda>j. g (ws ! (n - j))) [1..<Suc n] = map g (rev ws)"
proof -
  have "map (\<lambda>j. g (ws ! (n - j))) (map Suc [0..<n]) = map g (rev ws)"
    using assms by (intro nth_equalityI) (simp_all add: rev_nth)
  then show ?thesis by (simp only: map_Suc_upt One_nat_def)
qed

lemma of_int_sum_list_map_sint:
  "(word_of_int (sum_list (map sint xs)) :: 'a::len word) = sum_list xs"
  by (induction xs) simp_all

lemma sum_list_map_of_int:
  "(sum_list (map word_of_int xs) :: 'a::len word) = word_of_int (sum_list xs)"
  by (induction xs) simp_all

lemma full_fold_16:
  assumes "length ws = n"
  shows "fold (\<lambda>j m. word_of_int (sint m + sint (qsort compare ws ! (n - j)))) [1..<Suc n] (0 :: 16 word)
       = sum_list ws"
proof -
  have "fold (\<lambda>j m. word_of_int (sint m + sint (qsort compare ws ! (n - j)))) [1..<Suc n] (0 :: 16 word)
      = word_of_int (sum_list (map (\<lambda>j. sint (qsort compare ws ! (n - j))) [1..<Suc n]))"
    by (simp only: fold_add_of_int add_0_left)
  also have "map (\<lambda>j. sint (qsort compare ws ! (n - j))) [1..<Suc n] = map sint (rev (qsort compare ws))"
    using assms by (intro map_from_top) simp
  also have "(word_of_int (sum_list (map sint (rev (qsort compare ws)))) :: 16 word)
      = sum_list (map (\<lambda>w. w) (qsort compare ws))"
    by (simp only: of_int_sum_list_map_sint sum_list_rev map_ident)
  also have "\<dots> = sum_list ws"
    using sum_list_map_qsort [of "\<lambda>w. w" compare ws] by simp
  finally show ?thesis .
qed

lemma full_fold_32:
  assumes "length ws = n"
  shows "fold (\<lambda>i nks. nks + word_of_int (sint (qsort compare ws ! (n - i)))) [1..<Suc n] (0 :: 32 word)
       = sum_list (map (\<lambda>w. word_of_int (sint w)) ws)"
proof -
  have "fold (\<lambda>i nks. nks + word_of_int (sint (qsort compare ws ! (n - i)))) [1..<Suc n] (0 :: 32 word)
      = sum_list (map (\<lambda>i. word_of_int (sint (qsort compare ws ! (n - i)))) [1..<Suc n])"
    by (simp only: fold_add_word add_0_left)
  also have "map (\<lambda>i. (word_of_int (sint (qsort compare ws ! (n - i))) :: 32 word)) [1..<Suc n]
      = map (\<lambda>w. word_of_int (sint w)) (rev (qsort compare ws))"
    using assms by (intro map_from_top) simp
  also have "sum_list (map (\<lambda>w. (word_of_int (sint w) :: 32 word)) (rev (qsort compare ws)))
      = sum_list (map (\<lambda>w. word_of_int (sint w)) (qsort compare ws))"
    by (simp only: rev_map [symmetric] sum_list_rev)
  also have "\<dots> = sum_list (map (\<lambda>w. word_of_int (sint w)) ws)"
    by (rule sum_list_map_qsort)
  finally show ?thesis .
qed

lemma nks_norm_full:
  assumes len: "length s1 = n" "length s2 = n" and k: "unat kappa = n"
  shows "nks_norm s1 s2 n kappa =
     Some (sum_list (map (\<lambda>i. word_of_int (sint (word_of_int
              (sum_list (neg_rotate i (nks_spec_t (map sint s1) (map sint s2)))) :: 16 word)))
             [0..<n]))"
proof -
  define T where "T = nks_spec_t (map sint s1) (map sint s2)"
  have T: "length T = n" using len by (simp add: T_def nks_spec_t_def)
  have t16: "map (\<lambda>i. (word_of_int (sint (wrapped_product s1 s1 n i)
                               + sint (wrapped_product s2 s2 n i)) :: 16 word)) [0..<n]
       = map word_of_int T"
    unfolding T_def using len by (rule nks_t_of_int)
  have mk: "map (\<lambda>i. fold (\<lambda>j m. word_of_int (sint m + sint (qsort compare (wrap (map word_of_int T) n i (replicate n 0)) ! (n - j))))
           [1..<Suc n] (0 :: 16 word)) [0..<n]
      = map (\<lambda>i. word_of_int (sum_list (neg_rotate i T))) [0..<n]"
  proof (intro map_cong refl)
    fix i assume "i \<in> set [0..<n]"
    then have i: "i \<le> n" by simp
    have "fold (\<lambda>j m. word_of_int (sint m + sint (qsort compare (wrap (map word_of_int T) n i (replicate n 0)) ! (n - j))))
           [1..<Suc n] (0 :: 16 word) = sum_list (wrap (map word_of_int T) n i (replicate n 0))"
      using T i by (intro full_fold_16) (simp add: of_int_neg_rotate)
    also have "\<dots> = word_of_int (sum_list (neg_rotate i T))"
      using T i by (simp only: of_int_neg_rotate sum_list_map_of_int)
    finally show "fold (\<lambda>j m. word_of_int (sint m + sint (qsort compare (wrap (map word_of_int T) n i (replicate n 0)) ! (n - j))))
           [1..<Suc n] (0 :: 16 word) = word_of_int (sum_list (neg_rotate i T))" .
  qed
  have final: "fold (\<lambda>i nks. nks + word_of_int (sint (qsort compare
              (map (\<lambda>i. (word_of_int (sum_list (neg_rotate i T)) :: 16 word)) [0..<n]) ! (n - i))))
           [1..<Suc n] (0 :: 32 word)
      = sum_list (map (\<lambda>w. word_of_int (sint w)) (map (\<lambda>i. (word_of_int (sum_list (neg_rotate i T)) :: 16 word)) [0..<n]))"
    by (intro full_fold_32) simp
  have "nks_norm s1 s2 n kappa
      = Some (sum_list (map (\<lambda>w. word_of_int (sint w)) (map (\<lambda>i. (word_of_int (sum_list (neg_rotate i T)) :: 16 word)) [0..<n])))"
    unfolding nks_norm_def nks_norm_by_def Let_def k t16 mk final by simp
  then show ?thesis by (simp only: T_def map_map comp_def)
qed

lemma neg_rotate_split:
  assumes "i \<le> length T"
  shows "neg_rotate i T = map uminus (drop (length T - i) T) @ take (length T - i) T"
  using assms by (intro nth_equalityI) (auto simp: neg_rotate_def nth_append min_def algebra_simps)

lemma sum_list_map_uminus: "sum_list (map uminus xs) = - sum_list (xs :: int list)"
  by (induction xs) simp_all

lemma sum_list_neg_rotate:
  assumes "i \<le> length T"
  shows "sum_list (neg_rotate i T) = 2 * sum_list (take (length T - i) T) - sum_list T"
proof -
  have "sum_list T = sum_list (take (length T - i) T) + sum_list (drop (length T - i) T)"
    by (metis append_take_drop_id sum_list_append)
  then show ?thesis
    using assms by (simp add: neg_rotate_split sum_list_map_uminus)
qed

lemma sum_list_insort: "sum_list (insort x xs) = x + sum_list (xs :: int list)"
  by (induction xs) simp_all

lemma sum_list_sort: "sum_list (sort xs) = sum_list (xs :: int list)"
  by (induction xs) (simp_all add: sum_list_insort)

lemma top_sum_full: "length xs \<le> k \<Longrightarrow> top_sum k xs = sum_list xs"
  by (simp add: top_sum_def sum_list_rev sum_list_sort)

lemma nks_spec_full:
  assumes "length s1 = n"
  shows "nks_spec s1 s2 n = sum_list (map (\<lambda>i. sum_list (neg_rotate i (nks_spec_t s1 s2))) [0..<n])"
proof -
  have "length (nks_spec_t s1 s2) = n" using assms by (simp add: nks_spec_t_def)
  then have "nks_spec_max_kappa s1 s2 n = map (\<lambda>i. sum_list (neg_rotate i (nks_spec_t s1 s2))) [0..<n]"
    using assms by (simp add: nks_spec_max_kappa_def Let_def top_sum_full)
  then show ?thesis by (simp add: nks_spec_def top_sum_full)
qed

lemma sum_list_const_upt: "(\<Sum>i\<leftarrow>[a..<b]. (1::int)) = int (b - a)"
  by (simp add: sum_list_upt_sum)

lemma inner_product_ones:
  assumes "s \<le> n"
  shows "inner_product (replicate n 1) (neg_rotate s (replicate n 1)) = int n - 2 * int s"
proof -
  have a: "map (\<lambda>i. replicate n (1::int) ! i * replicate n 1 ! (i + s)) [0..<n - s] = map (\<lambda>i. 1) [0..<n - s]"
    by (intro map_cong refl) auto
  have b: "map (\<lambda>i. replicate n (1::int) ! i * replicate n 1 ! (i + s - n)) [n - s..<n] = map (\<lambda>i. 1) [n - s..<n]"
    using assms by (intro map_cong refl) auto
  have "inner_product (replicate n 1) (neg_rotate s (replicate n 1))
      = (\<Sum>i\<leftarrow>[0..<n - s]. (1::int)) - (\<Sum>i\<leftarrow>[n - s..<n]. (1::int))"
    using assms by (subst inner_product_neg_rotate) (simp_all only: length_replicate a b)
  then show ?thesis using assms by (simp add: sum_list_const_upt)
qed

lemma nks_spec_t_ones:
  "nks_spec_t (replicate n 1) (replicate n 1) = map (\<lambda>j. 2 * (int n - 2 * int j)) [0..<n]"
  unfolding nks_spec_t_def by (auto simp: inner_product_ones)

lemma prefix_sum_ones:
  "m \<le> n \<Longrightarrow> sum_list (take m (map (\<lambda>j. 2 * (int n - 2 * int j)) [0..<n])) = 2 * int m * (int n - int m + 1)"
proof (induction m)
  case 0
  then show ?case by simp
next
  case (Suc m)
  then have "take (Suc m) (map (\<lambda>j. 2 * (int n - 2 * int j)) [0..<n])
     = take m (map (\<lambda>j. 2 * (int n - 2 * int j)) [0..<n]) @ [2 * (int n - 2 * int m)]"
    by (simp add: take_Suc_conv_app_nth)
  with Suc show ?case by (simp add: algebra_simps)
qed

lemma rotation_sum_ones:
  assumes "i < n"
  shows "sum_list (neg_rotate i (map (\<lambda>j. 2 * (int n - 2 * int j)) [0..<n]))
       = 4 * (int n - int i) * (int i + 1) - 2 * int n"
proof -
  have "sum_list (neg_rotate i (map (\<lambda>j. 2 * (int n - 2 * int j)) [0..<n]))
      = 2 * sum_list (take (n - i) (map (\<lambda>j. 2 * (int n - 2 * int j)) [0..<n]))
        - sum_list (take n (map (\<lambda>j. 2 * (int n - 2 * int j)) [0..<n]))"
    using assms by (subst sum_list_neg_rotate) simp_all
  also have "\<dots> = 2 * (2 * int (n - i) * (int n - int (n - i) + 1)) - 2 * int n * (int n - int n + 1)"
    by (simp only: prefix_sum_ones diff_le_self order_refl)
  also have "\<dots> = 4 * (int n - int i) * (int i + 1) - 2 * int n"
    using assms by (simp add: of_nat_diff algebra_simps)
  finally show ?thesis .
qed

lemma nks_norm_ones:
  assumes "unat kappa = n"
  shows "nks_norm (replicate n 1) (replicate n 1) n kappa =
     Some (sum_list (map (\<lambda>i. word_of_int (sint (word_of_int
              (4 * (int n - int i) * (int i + 1) - 2 * int n) :: 16 word))) [0..<n]))"
proof -
  have "map sint (replicate n (1 :: 8 word)) = replicate n 1" by simp
  then have "nks_norm (replicate n 1) (replicate n 1) n kappa =
     Some (sum_list (map (\<lambda>i. word_of_int (sint (word_of_int
              (sum_list (neg_rotate i (map (\<lambda>j. 2 * (int n - 2 * int j)) [0..<n]))) :: 16 word)))
             [0..<n]))"
    using assms by (subst nks_norm_full) (simp_all only: length_replicate nks_spec_t_ones)
  also have "map (\<lambda>i. (word_of_int (sint (word_of_int
              (sum_list (neg_rotate i (map (\<lambda>j. 2 * (int n - 2 * int j)) [0..<n]))) :: 16 word)) :: 32 word))
             [0..<n]
     = map (\<lambda>i. word_of_int (sint (word_of_int
              (4 * (int n - int i) * (int i + 1) - 2 * int n) :: 16 word))) [0..<n]"
    by (intro map_cong refl) (simp only: rotation_sum_ones set_upt atLeastLessThan_iff)
  finally show ?thesis .
qed

lemma nks_spec_ones:
  "nks_spec (replicate n 1) (replicate n 1) n
     = sum_list (map (\<lambda>i. 4 * (int n - int i) * (int i + 1) - 2 * int n) [0..<n])"
proof -
  have "nks_spec (replicate n 1) (replicate n 1) n
     = sum_list (map (\<lambda>i. sum_list (neg_rotate i (map (\<lambda>j. 2 * (int n - 2 * int j)) [0..<n]))) [0..<n])"
    by (subst nks_spec_full) (simp_all only: length_replicate nks_spec_t_ones)
  also have "map (\<lambda>i. sum_list (neg_rotate i (map (\<lambda>j. 2 * (int n - 2 * int j)) [0..<n]))) [0..<n]
     = map (\<lambda>i. 4 * (int n - int i) * (int i + 1) - 2 * int n) [0..<n]"
    by (intro map_cong refl) (simp only: rotation_sum_ones set_upt atLeastLessThan_iff)
  finally show ?thesis .
qed


lemma abs_sum_list_le:
  "\<forall>x \<in> set xs. \<bar>x\<bar> \<le> B \<Longrightarrow> \<bar>sum_list xs\<bar> \<le> int (length xs) * (B::int)"
proof (induction xs)
  case Nil
  then show ?case by simp
next
  case (Cons x xs)
  then have "\<bar>sum_list xs\<bar> \<le> int (length xs) * B" and "\<bar>x\<bar> \<le> B" by simp_all
  then show ?case by (simp add: algebra_simps)
qed

lemma abs_top_sum_le:
  assumes "\<forall>x \<in> set xs. \<bar>x\<bar> \<le> B" "0 \<le> B"
  shows "\<bar>top_sum k xs\<bar> \<le> int k * (B::int)"
proof -
  have "\<forall>x \<in> set (take k (rev (sort xs))). \<bar>x\<bar> \<le> B"
    using assms(1) by (auto dest: in_set_takeD)
  then have "\<bar>top_sum k xs\<bar> \<le> int (length (take k (rev (sort xs)))) * B"
    unfolding top_sum_def by (rule abs_sum_list_le)
  also have "\<dots> \<le> int k * B"
    using assms(2) by (intro mult_right_mono) simp_all
  finally show ?thesis .
qed

text \<open>
  C2 (as amended).  For vectors \<open>s1\<close>, \<open>s2\<close> of length \<open>n\<close> and \<open>kappa \<le> n\<close>, when every
  entry of the vectors \<open>t\<close> and \<open>max\<kappa>\<close> of the specification has magnitude at most 16383,
  \<open>nks_norm\<close> returns the norm of the specification reduced modulo \<open>2\<^sup>3\<^sup>2\<close>: the norm
  itself when that is not negative.
\<close>

theorem nks_norm_refines:
  assumes len: "length s1 = n" "length s2 = n" and k: "unat kappa \<le> n"
    and range: "nks_in_range (map sint s1) (map sint s2) (unat kappa)"
  shows "nks_norm s1 s2 n kappa
           = Some (word_of_int (nks_spec (map sint s1) (map sint s2) (unat kappa)))
         \<and> (0 \<le> nks_spec (map sint s1) (map sint s2) (unat kappa) \<longrightarrow>
              map_option uint (nks_norm s1 s2 n kappa)
                = Some (nks_spec (map sint s1) (map sint s2) (unat kappa)))"
proof -
  define N where "N = nks_spec (map sint s1) (map sint s2) (unat kappa)"
  have eq: "nks_norm s1 s2 n kappa = Some (word_of_int N)"
    unfolding N_def using assms by (rule nks_norm_of_int_spec)
  have "\<forall>x \<in> set (nks_spec_max_kappa (map sint s1) (map sint s2) (unat kappa)). \<bar>x\<bar> \<le> 16383"
    using range by (simp add: nks_in_range_def list_all_iff)
  then have "\<bar>N\<bar> \<le> int (unat kappa) * 16383"
    unfolding N_def nks_spec_def by (intro abs_top_sum_le) simp_all
  moreover have "int (unat kappa) < 65536" using uint_bound_16 [of kappa] by simp
  ultimately have "\<bar>N\<bar> < 2 ^ 32" by simp
  then have "0 \<le> N \<Longrightarrow> uint (word_of_int N :: 32 word) = N"
    by (simp add: uint_word_of_int_eq take_bit_int_eq_self)
  with eq show ?thesis unfolding N_def [symmetric] by simp
qed

theorem nks_norm_refines_witness:
  "length [1, 0, - 1, 1 :: int8_t] = 4 \<and> length [1, 1, 0, - 1 :: int8_t] = 4
   \<and> unat (2 :: uint16_t) \<le> 4
   \<and> nks_in_range (map sint [1, 0, - 1, 1 :: int8_t]) (map sint [1, 1, 0, - 1 :: int8_t]) (unat (2 :: uint16_t))
   \<and> nks_spec (map sint [1, 0, - 1, 1 :: int8_t]) (map sint [1, 1, 0, - 1 :: int8_t]) (unat (2 :: uint16_t)) = 12
   \<and> nks_norm [1, 0, - 1, 1] [1, 1, 0, - 1] 4 2 = Some 12
   \<and> map_option uint (nks_norm [1, 0, - 1, 1] [1, 1, 0, - 1] 4 2) = Some 12"
proof -
  have r: "nks_in_range (map sint [1, 0, - 1, 1 :: int8_t]) (map sint [1, 1, 0, - 1 :: int8_t]) (unat (2 :: uint16_t))"
    by code_simp
  have s: "nks_spec (map sint [1, 0, - 1, 1 :: int8_t]) (map sint [1, 1, 0, - 1 :: int8_t]) (unat (2 :: uint16_t)) = 12"
    by code_simp
  have l: "length [1, 0, - 1, 1 :: int8_t] = 4" "length [1, 1, 0, - 1 :: int8_t] = 4"
    "unat (2 :: uint16_t) \<le> 4" by simp_all
  from nks_norm_refines [OF l r] s r l show ?thesis by simp
qed

text \<open>
  Without the bound the 16-bit sums wrap around.  For \<open>s1 = s2 = (1, \<dots>, 1)\<close> of length
  256 and \<open>kappa = 256\<close> the sum of all entries of the rotation of \<open>t\<close> by \<open>i\<close> is
  \<open>4 (256 - i) (i + 1) - 512\<close>, up to 65536; the code adds these sums as \<open>int16_t\<close> values
  and returns 4294224896, where the norm of the specification is 11185152.
\<close>

lemma nks_norm_ones_value:
  "(sum_list (map (\<lambda>i. word_of_int (sint (word_of_int
        (4 * (int 256 - int i) * (int i + 1) - 2 * int 256) :: 16 word))) [0..<256]) :: 32 word)
     = 4294224896"
  by code_simp

lemma nks_spec_ones_value:
  "sum_list (map (\<lambda>i. 4 * (int 256 - int i) * (int i + 1) - 2 * int 256) [0..<256]) = 11185152"
  by code_simp

theorem nks_norm_overflow_counterexample:
  "list_all (\<lambda>x. x = 0 \<or> x = 1 \<or> x = - 1) (replicate 256 (1 :: int8_t))
   \<and> length (replicate 256 (1 :: int8_t)) = 256
   \<and> 1 \<le> unat (256 :: uint16_t) \<and> unat (256 :: uint16_t) \<le> 256
   \<and> nks_norm (replicate 256 1) (replicate 256 1) 256 256 = Some 4294224896
   \<and> nks_spec (map sint (replicate 256 (1 :: int8_t))) (map sint (replicate 256 (1 :: int8_t)))
        (unat (256 :: uint16_t)) = 11185152"
proof -
  have k: "unat (256 :: uint16_t) = 256" by simp
  have a: "nks_norm (replicate 256 1) (replicate 256 1) 256 256 = Some 4294224896"
    using nks_norm_ones [OF k] by (simp only: nks_norm_ones_value)
  have "map sint (replicate 256 (1 :: int8_t)) = replicate 256 1" by simp
  then have b: "nks_spec (map sint (replicate 256 (1 :: int8_t))) (map sint (replicate 256 (1 :: int8_t)))
        (unat (256 :: uint16_t)) = 11185152"
    using nks_spec_ones [of 256] by (simp only: k nks_spec_ones_value)
  have c: "list_all (\<lambda>x. x = 0 \<or> x = 1 \<or> x = - 1) (replicate 256 (1 :: int8_t))"
    by (simp add: list_all_iff)
  from a b c k show ?thesis by simp
qed

subsection \<open>create\_vector\_from\_seed\<close>

lemma length_filter_update:
  "i < length v \<Longrightarrow>
   length (filter P (v[i := x])) + (if P (v ! i) then 1 else 0)
     = length (filter P v) + (if P x then 1 else 0)"
proof (induction v arbitrary: i)
  case Nil
  then show ?case by simp
next
  case (Cons a v)
  then show ?case by (cases i) auto
qed

lemma placed_refl: "placed mag 0 v v"
  by (auto simp: placed_def)

lemma placed_step:
  assumes i: "i < length v" "v ! i = 0" and mag: "mag \<noteq> 0" and x: "x = mag \<or> x = - mag"
    and rest: "placed mag k (v[i := x]) v'" and k: "0 < non_zero" "k = non_zero - 1"
  shows "placed mag non_zero v v'"
proof -
  have a: "length (filter (\<lambda>x. x = mag \<or> x = - mag) (v[i := x]))
         = Suc (length (filter (\<lambda>x. x = mag \<or> x = - mag) v))"
    using length_filter_update [OF i(1), of "\<lambda>x. x = mag \<or> x = - mag" x] i(2) mag x by auto
  have b: "length (filter P (v[i := x])) = length (filter P v)"
    if "\<not> P 0 \<and> \<not> P mag \<and> \<not> P (- mag)" for P
    using length_filter_update [OF i(1), of P x] i(2) x that by auto
  have c: "set (v[i := x]) \<subseteq> set v \<union> {mag, - mag}"
    using x set_update_subset_insert [of v i x] by auto
  show ?thesis
    using rest a b c k unfolding placed_def by auto
qed

lemma place_nonzero_placed:
  fixes lib :: "('r, 'b, 's) bliss_lib" and bs :: 'b
  assumes run: "place_nonzero lib n_bits mag non_zero vector bs = Some r"
  shows "mag \<noteq> 0 \<longrightarrow> (\<forall>v' bs'. r = Inr (v', bs') \<longrightarrow> placed mag non_zero vector v')"
proof -
  let ?P = "\<lambda>(lib :: ('r, 'b, 's) bliss_lib) (n_bits :: nat) mag non_zero vector (bs :: 'b) r.
     mag \<noteq> 0 \<longrightarrow> (\<forall>v' bs'. r = Inr (v', bs') \<longrightarrow> placed mag non_zero vector v')"
  show ?thesis
  proof (rule place_nonzero.raw_induct [where P = ?P, OF _ run])
    fix f and lib :: "('r, 'b, 's) bliss_lib" and n_bits mag non_zero vector and bs :: 'b and r
    assume IH: "\<And>lib n_bits mag non_zero vector bs r.
        f lib n_bits mag non_zero vector bs = Some r \<Longrightarrow> ?P lib n_bits mag non_zero vector bs r"
      and body: "(if non_zero = 0 then Some (Inr (vector, bs))
        else case bitspender_get_bits lib bs n_bits of
             None \<Rightarrow> Some (Inl BITS_EXHAUSTED)
           | Some (index, bitspender1) \<Rightarrow>
               if length vector \<le> unat index then Some (Inl INDEX_OUT_OF_BOUNDS)
               else if vector ! unat index \<noteq> 0
                    then f lib n_bits mag non_zero vector bitspender1
                    else case bitspender_get_bits lib bitspender1 1 of
                         None \<Rightarrow> Some (Inl BITS_EXHAUSTED)
                       | Some (sign_bit, bitspender2) \<Rightarrow>
                           f lib n_bits mag (non_zero - 1)
                             (vector[unat index := if sign_bit \<noteq> 0 then mag else - mag])
                             bitspender2) = Some r"
    show "?P lib n_bits mag non_zero vector bs r"
    proof (intro impI allI)
      fix v' bs' assume mag: "mag \<noteq> 0" and r: "r = Inr (v', bs')"
      show "placed mag non_zero vector v'"
      proof (cases "non_zero = 0")
        case True
        with body r show ?thesis by (simp add: placed_refl)
      next
        case False
        with body r obtain index bs1
          where g1: "bitspender_get_bits lib bs n_bits = Some (index, bs1)"
            and inb: "unat index < length vector"
          by (auto split: option.splits if_splits)
        show ?thesis
        proof (cases "vector ! unat index \<noteq> 0")
          case True
          with body False g1 inb have "f lib n_bits mag non_zero vector bs1 = Some r" by simp
          from IH [OF this] mag r show ?thesis by simp
        next
          case zero: False
          with body False g1 inb r obtain sign_bit bs2
            where g2: "bitspender_get_bits lib bs1 1 = Some (sign_bit, bs2)"
            by (cases "bitspender_get_bits lib bs1 1") auto
          have rec: "f lib n_bits mag (non_zero - 1)
                   (vector[unat index := (if sign_bit \<noteq> 0 then mag else - mag)]) bs2 = Some r"
            using body False g1 g2 inb zero by (simp split: if_splits)
          from IH [OF rec] mag r
          have pl: "placed mag (non_zero - 1)
                  (vector[unat index := (if sign_bit \<noteq> 0 then mag else - mag)]) v'"
            by simp
          have x: "(if sign_bit \<noteq> 0 then mag else - mag) = mag
                   \<or> (if sign_bit \<noteq> 0 then mag else - mag) = - mag"
            by simp
          have z: "vector ! unat index = 0" using zero by simp
          have nz: "0 < non_zero" using False by simp
          show ?thesis
            by (rule placed_step [OF inb z mag x pl nz refl])
        qed
      qed
    qed
  qed
qed


lemma place_nonzero_failure:
  fixes lib :: "('r, 'b, 's) bliss_lib" and bs :: 'b
  assumes run: "place_nonzero lib n_bits mag non_zero vector bs = Some r"
  shows "(\<forall>bs v bs'. bitspender_get_bits lib bs n_bits = Some (v, bs') \<longrightarrow> unat v < length vector)
     \<longrightarrow> (\<forall>e. r = Inl e \<longrightarrow> e = BITS_EXHAUSTED \<and> (\<exists>bs k. bitspender_get_bits lib bs k = None))"
proof -
  let ?P = "\<lambda>(lib :: ('r, 'b, 's) bliss_lib) (n_bits :: nat) (mag :: int8_t) (non_zero :: nat)
       (vector :: int8_t list) (bs :: 'b) (r :: failure + int8_t list \<times> 'b).
     (\<forall>bs v bs'. bitspender_get_bits lib bs n_bits = Some (v, bs') \<longrightarrow> unat v < length vector)
     \<longrightarrow> (\<forall>e. r = Inl e \<longrightarrow> e = BITS_EXHAUSTED \<and> (\<exists>bs k. bitspender_get_bits lib bs k = None))"
  show ?thesis
  proof (rule place_nonzero.raw_induct [where P = ?P, OF _ run])
    fix f and lib :: "('r, 'b, 's) bliss_lib" and n_bits mag non_zero vector and bs :: 'b and r
    assume IH: "\<And>lib n_bits mag non_zero vector bs r.
        f lib n_bits mag non_zero vector bs = Some r \<Longrightarrow> ?P lib n_bits mag non_zero vector bs r"
      and body: "(if non_zero = 0 then Some (Inr (vector, bs))
        else case bitspender_get_bits lib bs n_bits of
             None \<Rightarrow> Some (Inl BITS_EXHAUSTED)
           | Some (index, bitspender1) \<Rightarrow>
               if length vector \<le> unat index then Some (Inl INDEX_OUT_OF_BOUNDS)
               else if vector ! unat index \<noteq> 0
                    then f lib n_bits mag non_zero vector bitspender1
                    else case bitspender_get_bits lib bitspender1 1 of
                         None \<Rightarrow> Some (Inl BITS_EXHAUSTED)
                       | Some (sign_bit, bitspender2) \<Rightarrow>
                           f lib n_bits mag (non_zero - 1)
                             (vector[unat index := if sign_bit \<noteq> 0 then mag else - mag])
                             bitspender2) = Some r"
    show "?P lib n_bits mag non_zero vector bs r"
    proof (intro impI allI)
      fix e
      assume idx: "\<forall>bs v bs'. bitspender_get_bits lib bs n_bits = Some (v, bs') \<longrightarrow> unat v < length vector"
        and r: "r = Inl e"
      show "e = BITS_EXHAUSTED \<and> (\<exists>bs k. bitspender_get_bits lib bs k = None)"
      proof (cases "non_zero = 0")
        case True
        with body r show ?thesis by simp
      next
        case False
        show ?thesis
        proof (cases "bitspender_get_bits lib bs n_bits")
          case None
          with body False r show ?thesis by auto
        next
          case (Some a)
          then obtain index bs1 where g1: "bitspender_get_bits lib bs n_bits = Some (index, bs1)"
            by (cases a) simp
          with idx have inb: "unat index < length vector" by blast
          show ?thesis
          proof (cases "vector ! unat index \<noteq> 0")
            case True
            with body False g1 inb have "f lib n_bits mag non_zero vector bs1 = Some r" by simp
            from IH [OF this] idx r show ?thesis by simp
          next
            case zero: False
            show ?thesis
            proof (cases "bitspender_get_bits lib bs1 1")
              case None
              with body False g1 inb zero r show ?thesis by auto
            next
              case (Some b)
              then obtain sign_bit bs2 where g2: "bitspender_get_bits lib bs1 1 = Some (sign_bit, bs2)"
                by (cases b) simp
              have rec: "f lib n_bits mag (non_zero - 1)
                   (vector[unat index := (if sign_bit \<noteq> 0 then mag else - mag)]) bs2 = Some r"
                using body False g1 g2 inb zero by (simp split: if_splits)
              from IH [OF rec] idx r show ?thesis by simp
            qed
          qed
        qed
      qed
    qed
  qed
qed

lemma placed_length: "placed mag k v v' \<Longrightarrow> length v' = length v"
  unfolding placed_def by (elim conjE)

lemma placed_count:
  "placed mag k v v' \<Longrightarrow>
   length (filter (\<lambda>x. x = mag \<or> x = - mag) v')
     = length (filter (\<lambda>x. x = mag \<or> x = - mag) v) + k"
  unfolding placed_def by (elim conjE)

lemma placed_other:
  "placed mag k v v' \<Longrightarrow> \<not> P 0 \<Longrightarrow> \<not> P mag \<Longrightarrow> \<not> P (- mag) \<Longrightarrow>
   length (filter P v') = length (filter P v)"
  unfolding placed_def by (elim conjE allE [where x = P]) blast

lemma placed_set: "placed mag k v v' \<Longrightarrow> set v' \<subseteq> set v \<union> {mag, - mag}"
  unfolding placed_def by (elim conjE)

lemma int8_distinct:
  "(1::int8_t) \<noteq> 0" "(2::int8_t) \<noteq> 0" "(1::int8_t) \<noteq> 2" "(1::int8_t) \<noteq> - 2"
  "(- 1::int8_t) \<noteq> 2" "(- 1::int8_t) \<noteq> - 2" "(- 1::int8_t) \<noteq> 0" "(- 2::int8_t) \<noteq> 0"
  "(2::int8_t) \<noteq> 1" "(2::int8_t) \<noteq> - 1" "(- 2::int8_t) \<noteq> 1" "(- 2::int8_t) \<noteq> - 1"
  by simp_all

text \<open>
  C3.  Provided every index the bit spender hands out for \<open>n_bits\<close> bits is below \<open>n\<close>
  (the contract of the spender, with \<open>n = 2 ^ n_bits\<close>): a vector that
  \<open>create_vector_from_seed\<close> returns has length \<open>n\<close>, exactly \<open>non_zero1\<close> entries equal
  to \<open>1\<close> or \<open>-1\<close>, exactly \<open>non_zero2\<close> entries equal to \<open>2\<close> or \<open>-2\<close>, and no entry
  other than these and zero; and when it returns no vector, the bit spender could not
  supply bits: it could not be created, or it refused a request.
\<close>

theorem create_vector_from_seed_sparse:
  fixes lib :: "('r, 'b, 's) bliss_lib"
  assumes idx: "\<forall>bs v bs'. bitspender_get_bits lib bs (set_n_bits (key_set this)) = Some (v, bs')
                  \<longrightarrow> unat v < set_n (key_set this)"
  shows "(\<forall>v. create_vector_from_seed lib this alg seed = Some (Inr v) \<longrightarrow>
            length v = set_n (key_set this)
          \<and> length (filter (\<lambda>x. x = 1 \<or> x = - 1) v) = set_non_zero1 (key_set this)
          \<and> length (filter (\<lambda>x. x = 2 \<or> x = - 2) v) = set_non_zero2 (key_set this)
          \<and> set v \<subseteq> {0, 1, - 1, 2, - 2})
       \<and> (\<forall>e. create_vector_from_seed lib this alg seed = Some (Inl e) \<longrightarrow>
            (e = BITSPENDER_UNAVAILABLE \<and> mgf1_bitspender_create lib alg seed = None)
          \<or> (e = BITS_EXHAUSTED \<and> (\<exists>bs k. bitspender_get_bits lib bs k = None)))"
proof (intro conjI allI impI)
  fix v assume run: "create_vector_from_seed lib this alg seed = Some (Inr v)"
  then obtain bs0 v1 bs1 bs2 where
    p1: "place_nonzero lib (set_n_bits (key_set this)) 1 (set_non_zero1 (key_set this))
           (replicate (set_n (key_set this)) 0) bs0 = Some (Inr (v1, bs1))"
    and p2: "place_nonzero lib (set_n_bits (key_set this)) 2 (set_non_zero2 (key_set this))
           v1 bs1 = Some (Inr (v, bs2))"
    by (auto simp: create_vector_from_seed_def split: option.splits sum.splits)
  from place_nonzero_placed [OF p1]
  have a: "placed 1 (set_non_zero1 (key_set this)) (replicate (set_n (key_set this)) 0) v1"
    by simp
  from place_nonzero_placed [OF p2]
  have b: "placed 2 (set_non_zero2 (key_set this)) v1 v" by simp
  have len1: "length v1 = set_n (key_set this)" using placed_length [OF a] by simp
  have ones1: "length (filter (\<lambda>x. x = 1 \<or> x = - 1) v1) = set_non_zero1 (key_set this)"
    using placed_count [OF a] by simp
  have twos1: "length (filter (\<lambda>x. x = 2 \<or> x = - 2) v1) = 0"
    using placed_other [OF a, of "\<lambda>x. x = 2 \<or> x = - 2"] by simp
  have set1: "set v1 \<subseteq> {0, 1, - 1}" using placed_set [OF a] by auto
  show "length v = set_n (key_set this)" using placed_length [OF b] len1 by simp
  show "length (filter (\<lambda>x. x = 1 \<or> x = - 1) v) = set_non_zero1 (key_set this)"
    using placed_other [OF b, of "\<lambda>x. x = 1 \<or> x = - 1"] ones1 by simp
  show "length (filter (\<lambda>x. x = 2 \<or> x = - 2) v) = set_non_zero2 (key_set this)"
    using placed_count [OF b] twos1 by simp
  show "set v \<subseteq> {0, 1, - 1, 2, - 2}" using placed_set [OF b] set1 by auto
next
  fix e assume run: "create_vector_from_seed lib this alg seed = Some (Inl e)"
  show "(e = BITSPENDER_UNAVAILABLE \<and> mgf1_bitspender_create lib alg seed = None)
          \<or> (e = BITS_EXHAUSTED \<and> (\<exists>bs k. bitspender_get_bits lib bs k = None))"
  proof (cases "mgf1_bitspender_create lib alg seed")
    case None
    with run show ?thesis by (simp add: create_vector_from_seed_def)
  next
    case (Some bs0)
    show ?thesis
    proof (cases "place_nonzero lib (set_n_bits (key_set this)) 1 (set_non_zero1 (key_set this))
                    (replicate (set_n (key_set this)) 0) bs0")
      case None
      with run Some show ?thesis by (simp add: create_vector_from_seed_def)
    next
      case p1: (Some r1)
      show ?thesis
      proof (cases r1)
        case (Inl e1)
        with run Some p1 have "e1 = e" by (simp add: create_vector_from_seed_def)
        with place_nonzero_failure [OF p1] idx Inl show ?thesis by simp
      next
        case (Inr vb)
        then obtain v1 bs1 where r1: "r1 = Inr (v1, bs1)" by (cases vb) simp
        from place_nonzero_placed [OF p1] r1
        have "placed 1 (set_non_zero1 (key_set this)) (replicate (set_n (key_set this)) 0) v1"
          by simp
        from placed_length [OF this] have len1: "length v1 = set_n (key_set this)" by simp
        from run Some p1 r1 obtain r2 where
          p2: "place_nonzero lib (set_n_bits (key_set this)) 2 (set_non_zero2 (key_set this))
                 v1 bs1 = Some r2" and "r2 = Inl e"
          by (auto simp: create_vector_from_seed_def split: option.splits sum.splits)
        with place_nonzero_failure [OF p2] idx len1 show ?thesis by simp
      qed
    qed
  qed
qed

lemma toy_index_in_range:
  "\<forall>bs v bs'. bitspender_get_bits toy_lib bs (set_n_bits (key_set toy_key)) = Some (v, bs')
     \<longrightarrow> unat v < set_n (key_set toy_key)"
proof (intro allI impI)
  fix bs :: "uint32_t list" and v :: uint32_t and bs' :: "uint32_t list"
  assume "bitspender_get_bits toy_lib bs (set_n_bits (key_set toy_key)) = Some (v, bs')"
  then obtain b where "v = b mod 2"
    by (auto simp: toy_lib_def toy_key_def toy_set_def split: list.splits)
  then have "unat v = unat b mod 2" by (simp add: unat_mod)
  then show "unat v < set_n (key_set toy_key)"
    by (simp add: toy_key_def toy_set_def)
qed

theorem create_vector_from_seed_sparse_witness:
  "create_vector_from_seed toy_lib toy_key HASH_SHA1 (replicate 20 0) = Some (Inr [- 1, 0])
   \<and> length [- 1, 0 :: int8_t] = set_n (key_set toy_key)
   \<and> length (filter (\<lambda>x. x = 1 \<or> x = - 1) [- 1, 0 :: int8_t]) = set_non_zero1 (key_set toy_key)
   \<and> length (filter (\<lambda>x. x = 2 \<or> x = - 2) [- 1, 0 :: int8_t]) = set_non_zero2 (key_set toy_key)
   \<and> create_vector_from_seed toy_lib toy_key HASH_SHA1 [] = Some (Inl BITS_EXHAUSTED)
   \<and> (\<exists>bs k. bitspender_get_bits toy_lib bs k = None)"
proof -
  have a: "create_vector_from_seed toy_lib toy_key HASH_SHA1 (replicate 20 0) = Some (Inr [- 1, 0])"
    by code_simp
  have b: "create_vector_from_seed toy_lib toy_key HASH_SHA1 [] = Some (Inl BITS_EXHAUSTED)"
    by code_simp
  from create_vector_from_seed_sparse [OF toy_index_in_range, THEN conjunct1, rule_format, OF a]
  have c: "length [- 1, 0 :: int8_t] = set_n (key_set toy_key)
   \<and> length (filter (\<lambda>x. x = 1 \<or> x = - 1) [- 1, 0 :: int8_t]) = set_non_zero1 (key_set toy_key)
   \<and> length (filter (\<lambda>x. x = 2 \<or> x = - 2) [- 1, 0 :: int8_t]) = set_non_zero2 (key_set toy_key)"
    by blast
  from create_vector_from_seed_sparse [OF toy_index_in_range, THEN conjunct2, rule_format, OF b]
  have d: "\<exists>bs k. bitspender_get_bits toy_lib bs k = None" by blast
  from a b c d show ?thesis by blast
qed

subsection \<open>Key generation\<close>

lemma create_secret_good:
  "create_secret lib this rng trials = Some (Inr (f, g), rng', trials') \<Longrightarrow>
   \<exists>nks. nks_norm_by (libc_qsort lib) f g (set_n (key_set this)) (set_kappa (key_set this)) = Some nks
         \<and> nks < set_nks_max (key_set this)"
proof (induction "SECRET_KEY_TRIALS_MAX - trials" arbitrary: trials rng)
  case 0
  then show ?case
    by (auto simp: create_secret.simps [of lib this rng trials] Let_def)
next
  case (Suc k)
  then have lt: "trials < SECRET_KEY_TRIALS_MAX" by simp
  have IH: "\<And>rng2. create_secret lib this rng2 (Suc trials) = Some (Inr (f, g), rng', trials') \<Longrightarrow>
      \<exists>nks. nks_norm_by (libc_qsort lib) f g (set_n (key_set this)) (set_kappa (key_set this)) = Some nks
         \<and> nks < set_nks_max (key_set this)"
    using Suc.hyps(1) [of "Suc trials"] Suc.hyps(2) by simp
  from Suc.prems lt show ?case
    apply (subst (asm) create_secret.simps)
    apply (auto simp: Let_def split: option.splits sum.splits prod.splits if_splits dest!: IH)
    done
qed

lemma public_key_loop_result:
  "public_key_loop q S1 S2 n i A = Inr A' \<Longrightarrow> n \<le> length A \<Longrightarrow>
   length A' = length A
   \<and> (\<forall>j. i \<le> j \<and> j < n \<longrightarrow>
         S1 ! j \<noteq> 0 \<and> (\<exists>x. invert (S1 ! j) q = Some x \<and> A' ! j = (S2 ! j * x) mod ucast q))
   \<and> (\<forall>j. j < i \<longrightarrow> A' ! j = A ! j)"
proof (induction q S1 S2 n i A rule: public_key_loop.induct)
  case (1 q S1 S2 n i A)
  show ?case
  proof (cases "i < n")
    case False
    with "1.prems" show ?thesis
      by (auto simp: public_key_loop.simps [of q S1 S2 n i A])
  next
    case True
    with "1.prems"(1) have nz: "S1 ! i \<noteq> 0"
      by (auto simp: public_key_loop.simps [of q S1 S2 n i A])
    with True "1.prems"(1) obtain x where x: "invert (S1 ! i) q = Some x"
      and rec: "public_key_loop q S1 S2 n (i + 1) (A[i := (S2 ! i * x) mod ucast q]) = Inr A'"
      by (auto simp: public_key_loop.simps [of q S1 S2 n i A] split: option.splits)
    from "1.IH" [OF True nz x rec] "1.prems"(2)
    have len: "length A' = length A"
      and later: "\<And>j. i + 1 \<le> j \<Longrightarrow> j < n \<Longrightarrow>
          S1 ! j \<noteq> 0 \<and> (\<exists>x. invert (S1 ! j) q = Some x \<and> A' ! j = (S2 ! j * x) mod ucast q)"
      and earlier: "\<And>j. j < i + 1 \<Longrightarrow> A' ! j = (A[i := (S2 ! i * x) mod ucast q]) ! j"
      by simp_all
    have here: "A' ! i = (S2 ! i * x) mod ucast q"
      using earlier [of i] True "1.prems"(2) by simp
    show ?thesis
    proof (intro conjI allI impI)
      show "length A' = length A" by (rule len)
    next
      fix j assume j: "i \<le> j \<and> j < n"
      show "S1 ! j \<noteq> 0" using j nz later [of j] by (cases "j = i") auto
      show "\<exists>x. invert (S1 ! j) q = Some x \<and> A' ! j = (S2 ! j * x) mod ucast q"
        using j x here later [of j] by (cases "j = i") auto
    next
      fix j assume "j < i"
      then show "A' ! j = A ! j" using earlier [of j] by simp
    qed
  qed
qed

lemma public_key_loop_public_A:
  assumes "public_key_loop (set_q (key_set key)) (key_S1 lib key) (key_S2 lib key)
             (set_n (key_set key)) 0 (replicate (set_n (key_set key)) 0) = Inr A"
  shows "A = public_A lib key"
    and "\<forall>i < set_n (key_set key). key_S1 lib key ! i \<noteq> 0
           \<and> invert (key_S1 lib key ! i) (set_q (key_set key)) \<noteq> None"
proof -
  from public_key_loop_result [OF assms]
  have len: "length A = set_n (key_set key)"
    and each: "\<And>j. j < set_n (key_set key) \<Longrightarrow> key_S1 lib key ! j \<noteq> 0
         \<and> (\<exists>x. invert (key_S1 lib key ! j) (set_q (key_set key)) = Some x
                \<and> A ! j = (key_S2 lib key ! j * x) mod ucast (set_q (key_set key)))"
    by simp_all
  show "A = public_A lib key"
  proof (rule nth_equalityI)
    show "length A = length (public_A lib key)" using len by (simp add: public_A_def)
  next
    fix i assume "i < length A"
    then have i: "i < set_n (key_set key)" using len by simp
    from each [OF i] show "A ! i = public_A lib key ! i"
      using i by (auto simp: public_A_def)
  qed
  show "\<forall>i < set_n (key_set key). key_S1 lib key ! i \<noteq> 0
           \<and> invert (key_S1 lib key ! i) (set_q (key_set key)) \<noteq> None"
    using each by auto
qed

lemma gen_loop_result:
  "gen_loop lib this rng trials = Some (res, trials') \<Longrightarrow> trials \<le> SECRET_KEY_TRIALS_MAX \<Longrightarrow>
   trials' \<le> SECRET_KEY_TRIALS_MAX \<and> gen_post lib this res"
proof (induction "SECRET_KEY_TRIALS_MAX - trials" arbitrary: trials rng rule: less_induct)
  case less
  show ?case
  proof (cases "create_secret lib this rng trials")
    case None
    with less.prems show ?thesis by (simp add: gen_loop.simps [of lib this rng trials])
  next
    case (Some c)
    obtain r rng1 trials1 where c: "c = (r, rng1, trials1)" by (cases c) auto
    from create_secret_trials [OF Some [unfolded c]] less.prems(2)
    have t1: "trials1 \<le> SECRET_KEY_TRIALS_MAX" and adv: "\<And>x. r = Inr x \<Longrightarrow> trials < trials1"
      by auto
    show ?thesis
    proof (cases r)
      case (Inl e)
      with less.prems Some c t1 show ?thesis
        by (auto simp: gen_loop.simps [of lib this rng trials] gen_post_def)
    next
      case (Inr fg)
      obtain s1 s2 where fg: "fg = (s1, s2)" by (cases fg) auto
      define key0 where "key0 = this\<lparr>key_s1 := s1, key_s2 := s2\<rparr>"
      have S1: "key_S1 lib key0 = fft_transform lib (set_fft_params (key_set this))
                  (map (\<lambda>i. lift_s1 (set_q (key_set this)) (s1 ! i)) [0..<set_n (key_set this)]) False"
        and S2: "key_S2 lib key0 = fft_transform lib (set_fft_params (key_set this))
                  (map (\<lambda>i. lift_s2 (set_q (key_set this)) (s2 ! i)) [0..<set_n (key_set this)]) False"
        by (simp_all add: key_S1_def key_S2_def key0_def)
      from create_secret_good [OF Some [unfolded c Inr fg]]
      have good: "\<exists>nks. nks_norm_by (libc_qsort lib) s1 s2 (set_n (key_set this)) (set_kappa (key_set this)) = Some nks
                    \<and> nks < set_nks_max (key_set this)" .
      show ?thesis
      proof (cases "public_key_loop (set_q (key_set this)) (key_S1 lib key0) (key_S2 lib key0)
                      (set_n (key_set this)) 0 (replicate (set_n (key_set this)) 0)")
        case A: (Inr A)
        have res: "res = Inr (this\<lparr>key_s1 := s1, key_s2 := s2,
                      key_a := fft_transform lib (set_fft_params (key_set this)) A True\<rparr>)"
          and tr: "trials' = trials1"
          using less.prems(1) Some c Inr fg A
          by (simp_all add: gen_loop.simps [of lib this rng trials] Let_def S1 S2)
        have "gen_post lib this res"
          unfolding gen_post_def res using good A
          by (auto simp: key_S1_def key_S2_def key0_def)
        with tr t1 show ?thesis by simp
      next
        case e: (Inl e)
        show ?thesis
        proof (cases "e = NOT_INVERTIBLE \<and> trials1 < SECRET_KEY_TRIALS_MAX")
          case True
          then have rec: "gen_loop lib this rng1 trials1 = Some (res, trials')"
            using less.prems(1) Some c Inr fg e
            by (simp add: gen_loop.simps [of lib this rng trials] Let_def S1 S2)
          have "SECRET_KEY_TRIALS_MAX - trials1 < SECRET_KEY_TRIALS_MAX - trials"
            using adv [OF Inr] True by linarith
          from less.hyps [OF this rec t1] show ?thesis .
        next
          case False
          then have "trials' = trials1" and "\<exists>e'. res = Inl e'"
            using less.prems(1) Some c Inr fg e
            by (auto simp: gen_loop.simps [of lib this rng trials] Let_def S1 S2 split: if_splits)
          with t1 show ?thesis by (auto simp: gen_post_def)
        qed
      qed
    qed
  qed
qed

lemma gen_loop_result0:
  "gen_loop lib this rng 0 = Some (res, trials') \<Longrightarrow>
   trials' \<le> SECRET_KEY_TRIALS_MAX \<and> gen_post lib this res"
  using gen_loop_result [of lib this rng 0 res trials'] by simp

lemma bliss_private_key_gen_result:
  assumes "bliss_private_key_gen lib args = Some (res, trials)"
  shows "trials \<le> SECRET_KEY_TRIALS_MAX"
    and "res = Inr key \<Longrightarrow>
        (\<exists>nks. nks_norm_by (libc_qsort lib) (key_s1 key) (key_s2 key) (set_n (key_set key)) (set_kappa (key_set key))
                   = Some nks \<and> nks < set_nks_max (key_set key))
      \<and> (\<exists>A. public_key_loop (set_q (key_set key)) (key_S1 lib key) (key_S2 lib key)
                 (set_n (key_set key)) 0 (replicate (set_n (key_set key)) 0) = Inr A
              \<and> key_a key = fft_transform lib (set_fft_params (key_set key)) A True)"
proof -
  have small: "0 \<le> SECRET_KEY_TRIALS_MAX" "Suc 0 \<le> SECRET_KEY_TRIALS_MAX"
    by (simp_all add: SECRET_KEY_TRIALS_MAX_def)
  show "trials \<le> SECRET_KEY_TRIALS_MAX"
    using assms small
    by (auto simp: bliss_private_key_gen_def split: sum.splits option.splits if_splits
             dest!: gen_loop_result0)
  show "(\<exists>nks. nks_norm_by (libc_qsort lib) (key_s1 key) (key_s2 key) (set_n (key_set key)) (set_kappa (key_set key))
                   = Some nks \<and> nks < set_nks_max (key_set key))
      \<and> (\<exists>A. public_key_loop (set_q (key_set key)) (key_S1 lib key) (key_S2 lib key)
                 (set_n (key_set key)) 0 (replicate (set_n (key_set key)) 0) = Inr A
              \<and> key_a key = fft_transform lib (set_fft_params (key_set key)) A True)"
    if "res = Inr key"
  proof -
    from assms that obtain this rng where "gen_loop lib this rng 0 = Some (Inr key, trials)"
      by (auto simp: bliss_private_key_gen_def split: sum.splits option.splits if_splits)
    from gen_loop_result0 [OF this] show ?thesis
      unfolding gen_post_def by blast
  qed
qed









lemma toy_gen: "bliss_private_key_gen toy_lib [BUILD_KEY_SIZE 1, BUILD_END] = Some (Inr toy_key, 1)"
  by code_simp



lemma mod_inverse_cancel:
  assumes "(s1 * x) mod Q = (1::nat)"
  shows "(s1 * ((s2 * x) mod Q)) mod Q = s2 mod Q"
proof -
  have "(s1 * ((s2 * x) mod Q)) mod Q = (s1 * (s2 * x)) mod Q" by (rule mod_mult_right_eq)
  also have "s1 * (s2 * x) = s2 * (s1 * x)" by simp
  also have "(s2 * (s1 * x)) mod Q = (s2 * ((s1 * x) mod Q)) mod Q"
    by (rule mod_mult_right_eq [symmetric])
  finally show ?thesis by (simp add: assms)
qed

lemma public_A_congruence:
  assumes prime: "is_prime (unat q)" "odd (unat q)"
    and S1: "S1 \<noteq> 0" "S1 < ucast q" and S2: "S2 < ucast q"
  shows "(S1 * ((S2 * the (invert S1 q)) mod ucast q)) mod ucast q = (S2 :: uint32_t)"
proof -
  have Q: "0 < unat q" using prime(1) by (simp add: is_prime_def)
  have "0 < S1" using S1(1) by (simp add: word_neq_0_conv)
  from invert_correct [OF prime this S1(2)] obtain y where y: "invert S1 q = Some y"
    and uy: "unat y = unat S1 ^ (unat q - 2) mod unat q"
    and one: "(S1 * y) mod ucast q = 1" by blast
  have s1: "unat S1 < unat q" using S1(2) by (simp add: word_less_nat_alt unat_ucast_16_32)
  have s2: "unat S2 < unat q" using S2 by (simp add: word_less_nat_alt unat_ucast_16_32)
  have yq: "unat y < unat q" using Q by (simp add: uy)
  have "unat ((S1 * y) mod ucast q) = (unat S1 * unat y) mod unat q"
    using s1 yq by (rule unat_mul_mod)
  with one have inv: "(unat S1 * unat y) mod unat q = 1" by simp
  define a where "a = (S2 * y) mod ucast q"
  have ua: "unat a = (unat S2 * unat y) mod unat q"
    unfolding a_def using s2 yq by (rule unat_mul_mod)
  then have aq: "unat a < unat q" using Q by simp
  have "unat ((S1 * a) mod ucast q) = (unat S1 * unat a) mod unat q"
    using s1 aq by (rule unat_mul_mod)
  also have "\<dots> = unat S2 mod unat q"
    unfolding ua using inv by (rule mod_inverse_cancel)
  also have "\<dots> = unat S2" using s2 by simp
  finally have "(S1 * a) mod ucast q = S2" by (simp add: word_unat_eq_iff)
  then show ?thesis by (simp add: a_def y)
qed

text \<open>
  C1.  For a key that \<open>bliss_private_key_gen\<close> returns, the public polynomial \<open>a\<close> is the
  inverse FFT of \<open>A\<close> with \<open>A[i] = (S2[i] * invert(S1[i], q)) mod q\<close> for every \<open>i < n\<close>,
  where no \<open>S1[i]\<close> is zero.  When \<open>q\<close> is an odd prime and the FFT delivers coefficients
  below \<open>q\<close>, \<open>S1[i] * A[i]\<close> is \<open>S2[i]\<close> modulo \<open>q\<close>; and when the FFT undoes the inverse
  FFT of \<open>A\<close>, so that \<open>FFT(a) = A\<close>, this is \<open>FFT(S1) * FFT(a) = FFT(S2)\<close> modulo \<open>q\<close>,
  pointwise.
\<close>

theorem public_key_relation:
  assumes gen: "bliss_private_key_gen lib args = Some (Inr key, trials)"
  shows "key_a key = fft_transform lib (set_fft_params (key_set key)) (public_A lib key) True
       \<and> (\<forall>i < set_n (key_set key).
             key_S1 lib key ! i \<noteq> 0
           \<and> (\<exists>x. invert (key_S1 lib key ! i) (set_q (key_set key)) = Some x
                  \<and> public_A lib key ! i
                      = (key_S2 lib key ! i * x) mod ucast (set_q (key_set key))))
       \<and> (is_prime (unat (set_q (key_set key))) \<and> odd (unat (set_q (key_set key)))
            \<and> (\<forall>i < set_n (key_set key).
                  key_S1 lib key ! i < ucast (set_q (key_set key))
                \<and> key_S2 lib key ! i < ucast (set_q (key_set key)))
          \<longrightarrow> (\<forall>i < set_n (key_set key).
                  (key_S1 lib key ! i * public_A lib key ! i) mod ucast (set_q (key_set key))
                    = key_S2 lib key ! i)
              \<and> (fft_transform lib (set_fft_params (key_set key))
                    (fft_transform lib (set_fft_params (key_set key)) (public_A lib key) True) False
                    = public_A lib key
                  \<longrightarrow> (\<forall>i < set_n (key_set key).
                         (key_S1 lib key ! i
                            * fft_transform lib (set_fft_params (key_set key)) (key_a key) False ! i)
                           mod ucast (set_q (key_set key))
                         = key_S2 lib key ! i)))"
proof -
  from bliss_private_key_gen_result(2) [OF gen refl] obtain A where
    loop: "public_key_loop (set_q (key_set key)) (key_S1 lib key) (key_S2 lib key)
                 (set_n (key_set key)) 0 (replicate (set_n (key_set key)) 0) = Inr A"
    and a: "key_a key = fft_transform lib (set_fft_params (key_set key)) A True"
    by blast
  have A: "A = public_A lib key" using loop by (rule public_key_loop_public_A(1))
  have nz: "\<forall>i < set_n (key_set key). key_S1 lib key ! i \<noteq> 0
           \<and> invert (key_S1 lib key ! i) (set_q (key_set key)) \<noteq> None"
    using loop by (rule public_key_loop_public_A(2))
  have first: "key_a key = fft_transform lib (set_fft_params (key_set key)) (public_A lib key) True"
    using a A by simp
  have second: "\<forall>i < set_n (key_set key).
             key_S1 lib key ! i \<noteq> 0
           \<and> (\<exists>x. invert (key_S1 lib key ! i) (set_q (key_set key)) = Some x
                  \<and> public_A lib key ! i
                      = (key_S2 lib key ! i * x) mod ucast (set_q (key_set key)))"
    using nz by (auto simp: public_A_def)
  have third: "\<forall>i < set_n (key_set key).
                  (key_S1 lib key ! i * public_A lib key ! i) mod ucast (set_q (key_set key))
                    = key_S2 lib key ! i"
    if "is_prime (unat (set_q (key_set key)))" "odd (unat (set_q (key_set key)))"
      "\<forall>i < set_n (key_set key).
                  key_S1 lib key ! i < ucast (set_q (key_set key))
                \<and> key_S2 lib key ! i < ucast (set_q (key_set key))"
  proof (intro allI impI)
    fix i assume i: "i < set_n (key_set key)"
    have "public_A lib key ! i
        = (key_S2 lib key ! i * the (invert (key_S1 lib key ! i) (set_q (key_set key))))
            mod ucast (set_q (key_set key))"
      using i by (simp add: public_A_def)
    moreover have "(key_S1 lib key ! i
          * ((key_S2 lib key ! i * the (invert (key_S1 lib key ! i) (set_q (key_set key))))
              mod ucast (set_q (key_set key)))) mod ucast (set_q (key_set key))
        = key_S2 lib key ! i"
      using that nz i by (intro public_A_congruence) auto
    ultimately show "(key_S1 lib key ! i * public_A lib key ! i) mod ucast (set_q (key_set key))
                    = key_S2 lib key ! i"
      by simp
  qed
  show ?thesis
    using first second third by (simp add: first [symmetric])
qed


lemma toy_public_A: "public_A toy_lib toy_key = [0, 2]"
  by code_simp

lemma toy_S1: "key_S1 toy_lib toy_key = [4, 4]"
  by code_simp

lemma toy_S2: "key_S2 toy_lib toy_key = [0, 3]"
  by code_simp

theorem public_key_relation_witness:
  "bliss_private_key_gen toy_lib [BUILD_KEY_SIZE 1, BUILD_END] = Some (Inr toy_key, 1)
   \<and> key_S1 toy_lib toy_key = [4, 4] \<and> key_S2 toy_lib toy_key = [0, 3]
   \<and> public_A toy_lib toy_key = [0, 2]
   \<and> key_a toy_key = fft_transform toy_lib (set_fft_params (key_set toy_key)) [0, 2] True
   \<and> is_prime (unat (set_q (key_set toy_key))) \<and> odd (unat (set_q (key_set toy_key)))
   \<and> fft_transform toy_lib (set_fft_params (key_set toy_key)) (key_a toy_key) False = [0, 2]
   \<and> ((4 :: uint32_t) * 0) mod ucast (set_q (key_set toy_key)) = 0
   \<and> ((4 :: uint32_t) * 2) mod ucast (set_q (key_set toy_key)) = 3"
proof -
  have q: "set_q (key_set toy_key) = 5" and n: "set_n (key_set toy_key) = 2"
    by (simp_all add: toy_key_def toy_set_def)
  have prime: "is_prime (unat (set_q (key_set toy_key)))" unfolding q by (simp add: is_prime_def) code_simp
  have odd: "odd (unat (set_q (key_set toy_key)))" unfolding q by simp
  have range: "\<forall>i < set_n (key_set toy_key).
                  key_S1 toy_lib toy_key ! i < ucast (set_q (key_set toy_key))
                \<and> key_S2 toy_lib toy_key ! i < ucast (set_q (key_set toy_key))"
    unfolding q n toy_S1 toy_S2 by (auto simp: less_2_cases_iff)
  have a: "key_a toy_key = fft_transform toy_lib (set_fft_params (key_set toy_key)) [0, 2] True"
    by code_simp
  have rt: "fft_transform toy_lib (set_fft_params (key_set toy_key)) (key_a toy_key) False = [0, 2]"
    by code_simp
  have rt': "fft_transform toy_lib (set_fft_params (key_set toy_key))
                    (fft_transform toy_lib (set_fft_params (key_set toy_key)) (public_A toy_lib toy_key) True) False
                    = public_A toy_lib toy_key"
    using rt a by (simp add: toy_public_A)
  from public_key_relation [OF toy_gen] prime odd range rt'
  have rel: "\<forall>i < set_n (key_set toy_key).
                         (key_S1 toy_lib toy_key ! i
                            * fft_transform toy_lib (set_fft_params (key_set toy_key)) (key_a toy_key) False ! i)
                           mod ucast (set_q (key_set toy_key))
                         = key_S2 toy_lib toy_key ! i"
    by blast
  from rel have "((4 :: uint32_t) * 0) mod ucast (set_q (key_set toy_key)) = 0"
    "((4 :: uint32_t) * 2) mod ucast (set_q (key_set toy_key)) = 3"
    unfolding n rt toy_S1 toy_S2 by (auto simp: less_2_cases_iff)
  with toy_gen toy_S1 toy_S2 toy_public_A a prime odd rt show ?thesis by blast
qed

subsection \<open>sign and decrypt\<close>

text \<open>The loop hands back the key it was given.\<close>

lemma sign_loop_key:
  "sign_loop lib this hasher data_hash alg seed_len A rounds rng sampler = Some (outcome, this')
   \<Longrightarrow> this' = this"
proof (induction rounds arbitrary: rng sampler)
  case 0
  then show ?case by simp
next
  case (Suc rounds)
  then show ?case
    by (auto split: option.splits prod.splits round_exit.splits if_splits)
qed

lemma sign_bliss_with_sha512_key:
  "sign_bliss_with_sha512 lib rounds this data signature = Some (outcome, this')
   \<Longrightarrow> this' = this"
  by (auto simp: sign_bliss_with_sha512_def Let_def dest: sign_loop_key
           split: option.splits)

text \<open>
  Nothing in a round looks at the generator: the round is the same under another
  \<open>create_rng\<close> and another \<open>get_bytes\<close>.
\<close>

lemma gaussian_loop_rng:
  "gaussian_loop (lib\<lparr>lib_create_rng := create_rng2, rng_get_bytes := get_bytes2\<rparr>)
     q k sampler ys
   = gaussian_loop lib q k sampler ys"
proof (induction k arbitrary: sampler ys)
  case 0
  show ?case by simp
next
  case (Suc k)
  obtain y1 y2 ay where ys: "ys = (y1, y2, ay)" by (cases ys) auto
  show ?case
    unfolding ys by (simp add: Suc split: option.splits)
qed

lemma lib_rng_fields:
  "bliss_sampler_create (lib\<lparr>lib_create_rng := create_rng2, rng_get_bytes := get_bytes2\<rparr>)
     = bliss_sampler_create lib"
  "fft_transform (lib\<lparr>lib_create_rng := create_rng2, rng_get_bytes := get_bytes2\<rparr>)
     = fft_transform lib"
  "bliss_utils_round_and_drop (lib\<lparr>lib_create_rng := create_rng2, rng_get_bytes := get_bytes2\<rparr>)
     = bliss_utils_round_and_drop lib"
  "bliss_utils_generate_c (lib\<lparr>lib_create_rng := create_rng2, rng_get_bytes := get_bytes2\<rparr>)
     = bliss_utils_generate_c lib"
  "bliss_utils_scalar_product (lib\<lparr>lib_create_rng := create_rng2, rng_get_bytes := get_bytes2\<rparr>)
     = bliss_utils_scalar_product lib"
  "bliss_utils_check_norms (lib\<lparr>lib_create_rng := create_rng2, rng_get_bytes := get_bytes2\<rparr>)
     = bliss_utils_check_norms lib"
  "bliss_signature_get_encoding (lib\<lparr>lib_create_rng := create_rng2, rng_get_bytes := get_bytes2\<rparr>)
     = bliss_signature_get_encoding lib"
  "sampler_bernoulli_exp (lib\<lparr>lib_create_rng := create_rng2, rng_get_bytes := get_bytes2\<rparr>)
     = sampler_bernoulli_exp lib"
  "sampler_bernoulli_cosh (lib\<lparr>lib_create_rng := create_rng2, rng_get_bytes := get_bytes2\<rparr>)
     = sampler_bernoulli_cosh lib"
  "sampler_sign (lib\<lparr>lib_create_rng := create_rng2, rng_get_bytes := get_bytes2\<rparr>)
     = sampler_sign lib"
  by simp_all

lemma sign_round_rng:
  "sign_round (lib\<lparr>lib_create_rng := create_rng2, rng_get_bytes := get_bytes2\<rparr>)
     this hasher data_hash alg A seed
   = sign_round lib this hasher data_hash alg A seed"
  unfolding sign_round_def gaussian_loop_rng lib_rng_fields by (rule refl)

lemma sign_loop_same_bytes:
  "rng_same_bytes (rng_get_bytes lib) get_bytes2 seed_len rounds r1 r2 \<Longrightarrow>
   sign_loop (lib\<lparr>lib_create_rng := create_rng2, rng_get_bytes := get_bytes2\<rparr>)
     this hasher data_hash alg seed_len A rounds r2 sampler
   = sign_loop lib this hasher data_hash alg seed_len A rounds r1 sampler"
proof (induction rounds arbitrary: r1 r2 sampler)
  case 0
  show ?case by simp
next
  case (Suc rounds)
  show ?case
  proof (cases "rng_get_bytes lib r1 seed_len")
    case None
    with Suc.prems have "get_bytes2 r2 seed_len = None" by simp
    with None show ?thesis by simp
  next
    case (Some a)
    obtain seed r1' where a: "a = (seed, r1')" by (cases a) auto
    from Suc.prems Some a obtain r2' where
      g2: "get_bytes2 r2 seed_len = Some (seed, r2')" and
      same: "rng_same_bytes (rng_get_bytes lib) get_bytes2 seed_len rounds r1' r2'"
      by (auto split: option.splits)
    show ?thesis
      using Some a g2 Suc.IH [OF same]
      by (simp add: sign_round_rng split: round_exit.splits)
  qed
qed

text \<open>
  Every failing return of \<open>sign_bliss_with_sha512\<close> leaves the empty chunk in
  \<open>*signature\<close>: the function assigns \<open>chunk_empty\<close> before anything else.
\<close>

lemma sign_loop_failure_empty:
  "sign_loop lib this hasher data_hash alg seed_len A rounds rng sampler
     = Some (Returned False sig', this')
   \<Longrightarrow> sig' = []"
proof (induction rounds arbitrary: rng sampler)
  case 0
  then show ?case by simp
next
  case (Suc rounds)
  then show ?case
    by (auto split: option.splits prod.splits round_exit.splits if_splits)
qed

lemma sign_bliss_with_sha512_failure_empty:
  "sign_bliss_with_sha512 lib rounds this data signature = Some (Returned False sig', this')
   \<Longrightarrow> sig' = []"
  by (auto simp: sign_bliss_with_sha512_def Let_def dest: sign_loop_failure_empty
           split: option.splits)

text \<open>
  The \<open>default\<close> branch of \<open>sign\<close> returns false for every other scheme, and writes
  nothing to \<open>*signature\<close>: the chunk is what the caller passed.
\<close>

lemma sign_unsupported_scheme:
  "scheme \<noteq> SIGN_BLISS_WITH_SHA512 \<Longrightarrow>
   sign lib rounds this scheme data signature = Some (Returned False signature, this)"
  by (cases scheme) (simp_all add: sign_def)

text \<open>
  C7.  For a scheme other than \<open>SIGN_BLISS_WITH_SHA512\<close>, \<open>sign\<close> returns false, but the
  output signature is not the empty signature: called with a chunk that holds the
  byte 9, \<open>sign\<close> leaves that byte in it.  On the same key and message the supported
  scheme, failing because no hasher is to be had, returns false and the empty chunk.
\<close>

theorem sign_unsupported_scheme_leaves_signature:
  "sign toy_lib 1 toy_key (SIGN_OTHER 0) [1, 2, 3] [9] = Some (Returned False [9], toy_key) \<and>
   sign (toy_lib\<lparr>lib_create_hasher := (\<lambda>alg. None)\<rparr>) 1 toy_key SIGN_BLISS_WITH_SHA512
     [1, 2, 3] [9] = Some (Returned False [], toy_key)"
  by (simp add: sign_def sign_bliss_with_sha512_def toy_lib_def)

text \<open>A run of two rounds on the small instance, and a second generator for it.\<close>

lemma toy_sign_seeded:
  "sign toy_lib_seeded 2 toy_key SIGN_BLISS_WITH_SHA512 [1, 2, 3] [9]
   = Some (Returned True [0, 3, 1, 0, 0], toy_key)"
  by code_simp

lemma toy_same_bytes:
  "rng_same_bytes (rng_get_bytes toy_lib_seeded) toy_get_bytes2 (sign_seed_len toy_key) 2 0 0"
  by code_simp

lemma toy_create_rng: "lib_create_rng toy_lib_seeded RNG_STRONG = Some 0"
  by (simp add: toy_lib_seeded_def toy_lib_def)

text \<open>
  C8.  Signing is a function of the key, the message and the bytes the generator
  delivers: take a second run of \<open>sign\<close> that differs from the first only in its
  generator (\<open>create_rng\<close> and \<open>get_bytes\<close>).  If both generators are created and answer
  the requests of the rounds alike, the two runs end alike: the same return value
  and the same signature bytes.
\<close>

theorem sign_deterministic_given_rng:
  assumes "lib_create_rng lib RNG_STRONG = Some r1"
    and "create_rng2 RNG_STRONG = Some r2"
    and "rng_same_bytes (rng_get_bytes lib) get_bytes2 (sign_seed_len this) rounds r1 r2"
  shows "sign (lib\<lparr>lib_create_rng := create_rng2, rng_get_bytes := get_bytes2\<rparr>)
           rounds this scheme data signature
         = sign lib rounds this scheme data signature"
proof (cases scheme)
  case SIGN_BLISS_WITH_SHA512
  let ?lib2 = "lib\<lparr>lib_create_rng := create_rng2, rng_get_bytes := get_bytes2\<rparr>"
  have "sign_bliss_with_sha512 ?lib2 rounds this data signature
        = sign_bliss_with_sha512 lib rounds this data signature"
  proof (cases "lib_create_hasher lib HASH_SHA512")
    case None
    then show ?thesis by (simp add: sign_bliss_with_sha512_def)
  next
    case (Some hasher)
    note hasher = Some
    show ?thesis
    proof (cases "hasher data")
      case None
      with hasher show ?thesis by (simp add: sign_bliss_with_sha512_def)
    next
      case (Some data_hash)
      have "sign_loop ?lib2 this hasher data_hash
              (if set_strength (key_set this) > 160 then HASH_SHA256 else HASH_SHA1)
              (sign_seed_len this)
              (fft_transform lib (set_fft_params (key_set this)) (key_a this) False)
              rounds r2 None
            = sign_loop lib this hasher data_hash
              (if set_strength (key_set this) > 160 then HASH_SHA256 else HASH_SHA1)
              (sign_seed_len this)
              (fft_transform lib (set_fft_params (key_set this)) (key_a this) False)
              rounds r1 None"
        by (rule sign_loop_same_bytes [OF assms(3)])
      with hasher Some assms(1,2) show ?thesis
        by (simp add: sign_bliss_with_sha512_def sign_seed_len_def Let_def)
    qed
  qed
  with SIGN_BLISS_WITH_SHA512 show ?thesis by (simp add: sign_def)
next
  case (SIGN_OTHER code)
  then show ?thesis by (simp add: sign_def)
qed

theorem sign_deterministic_given_rng_witness:
  "lib_create_rng toy_lib_seeded RNG_STRONG = Some 0 \<and>
   rng_same_bytes (rng_get_bytes toy_lib_seeded) toy_get_bytes2 (sign_seed_len toy_key) 2 0 0 \<and>
   sign (toy_lib_seeded\<lparr>lib_create_rng := (\<lambda>quality. Some 0), rng_get_bytes := toy_get_bytes2\<rparr>)
     2 toy_key SIGN_BLISS_WITH_SHA512 [1, 2, 3] [9]
   = Some (Returned True [0, 3, 1, 0, 0], toy_key) \<and>
   sign toy_lib_seeded 2 toy_key SIGN_BLISS_WITH_SHA512 [1, 2, 3] [9]
   = Some (Returned True [0, 3, 1, 0, 0], toy_key)"
proof -
  have "sign (toy_lib_seeded\<lparr>lib_create_rng := (\<lambda>quality. Some 0),
                               rng_get_bytes := toy_get_bytes2\<rparr>)
          2 toy_key SIGN_BLISS_WITH_SHA512 [1, 2, 3] [9]
        = sign toy_lib_seeded 2 toy_key SIGN_BLISS_WITH_SHA512 [1, 2, 3] [9]"
  proof (rule sign_deterministic_given_rng [where ?r1.0 = 0 and ?r2.0 = 0])
    show "lib_create_rng toy_lib_seeded RNG_STRONG = Some 0" by (rule toy_create_rng)
    show "Some 0 = Some (0::nat)" by (rule refl)
    show "rng_same_bytes (rng_get_bytes toy_lib_seeded) toy_get_bytes2
            (sign_seed_len toy_key) 2 0 0"
      by (rule toy_same_bytes)
  qed
  with toy_create_rng toy_same_bytes toy_sign_seeded show ?thesis by (simp only: simp_thms)
qed

text \<open>
  C9.  Signing never changes the private key: whenever \<open>sign\<close> ends, with a signature or
  without, the key's parameter set, \<open>s1\<close>, \<open>s2\<close> and \<open>a\<close> are what they were before the
  call.
\<close>

theorem sign_preserves_key:
  assumes "sign lib rounds this scheme data signature = Some (outcome, this')"
  shows "key_set this' = key_set this \<and> key_s1 this' = key_s1 this \<and>
         key_s2 this' = key_s2 this \<and> key_a this' = key_a this"
proof -
  have "this' = this"
    using assms
    by (cases scheme) (auto simp: sign_def dest: sign_bliss_with_sha512_key)
  then show ?thesis by simp
qed

theorem sign_preserves_key_witness:
  "sign toy_lib_seeded 2 toy_key SIGN_BLISS_WITH_SHA512 [1, 2, 3] [9]
   = Some (Returned True [0, 3, 1, 0, 0], toy_key) \<and>
   key_set toy_key = toy_set \<and> key_s1 toy_key = [- 1, 0] \<and>
   key_s2 toy_key = [1, 2] \<and> key_a toy_key = [1, 2]"
proof -
  have k: "key_set toy_key = toy_set \<and> key_s1 toy_key = [- 1, 0] \<and>
           key_s2 toy_key = [1, 2] \<and> key_a toy_key = [1, 2]"
    by (simp add: toy_key_def)
  from sign_preserves_key [OF toy_sign_seeded] toy_sign_seeded k show ?thesis by blast
qed

text \<open>
  C10.  \<open>decrypt\<close> on a BLISS private key always fails: for every key, scheme and
  ciphertext it returns false and leaves the plaintext output as it was.
\<close>

theorem decrypt_always_fails: "decrypt this scheme crypto plain = (False, plain)"
  by (simp add: decrypt_def)

end
